theory Spec2Isabelle
  imports Main "HOL-Library.Word"
begin

unbundle bit_operations_syntax

section \<open>Data model of \<open>src/main.c\<close>\<close>

text \<open>
  The program is a 15-puzzle for the Game Boy Color. Its state is a handful of global
  variables of type \<open>uint8_t\<close> and \<open>uint16_t\<close>; they are modelled as 8-bit and 16-bit
  machine words, so that every \<open>+\<close>, \<open>-\<close> and \<open>*\<close> wraps as the C arithmetic does once
  its result is stored back into a variable or passed as a \<open>uint8_t\<close> argument.
\<close>

type_synonym uint8_t = "8 word"
type_synonym uint16_t = "16 word"

text \<open>
  What the program does to the outside world is recorded in a trace, oldest event first:
  \<^item> \<open>Bkg_tile bank x y t\<close>: a call \<open>set_bkg_tile_xy(x, y, t)\<close> made while \<open>VBK_REG\<close> holds
    \<open>bank\<close> (bank 0 is the tile map, the content layer; bank 1 is the attribute map);
  \<^item> \<open>Vbl\<close>: a call of \<open>wait_vbl_done()\<close>;
  \<^item> \<open>Try_move_call r c won\<close>: an observation, not an effect: \<open>try_move(r, c)\<close> was entered
    while the flag \<open>game_won\<close> held the value \<open>won\<close>.
\<close>

datatype event =
    Bkg_tile uint8_t uint8_t uint8_t uint8_t
  | Vbl
  | Try_move_call uint8_t uint8_t uint8_t

text \<open>
  The array \<open>uint8_t board[4][4]\<close> is the list of its 16 cells in memory order, so
  \<open>board[r][c]\<close> is the element at index \<open>4 * r + c\<close>. An index outside the array is
  undefined behaviour in C, which the model does not describe: there a read of the list
  is an unspecified value and a write is lost. Every index is inside the array as long
  as the list has its 16 cells and the cached empty position, the cursor and the
  coordinates passed to a function are at most 3. The board invariant below contains the
  first two conditions; it is shown to hold after the set-up of a session and to be
  kept, together with the cursor inside the grid, by the game loop.
\<close>

record game =
  board :: "uint8_t list"
  empty_row :: uint8_t
  empty_col :: uint8_t
  cursor_row :: uint8_t
  cursor_col :: uint8_t
  move_count :: uint16_t
  game_won :: uint8_t
  input_cooldown :: uint8_t
  seed_counter :: uint16_t
  VBK_REG :: uint8_t
  trace :: "event list"

abbreviation (input) GRID_SIZE :: uint8_t where "GRID_SIZE \<equiv> 4"
abbreviation (input) EMPTY_TILE :: uint8_t where "EMPTY_TILE \<equiv> 0"
abbreviation (input) CELL_W :: uint8_t where "CELL_W \<equiv> 3"
abbreviation (input) CELL_H :: uint8_t where "CELL_H \<equiv> 3"
abbreviation (input) GRID_X :: uint8_t where "GRID_X \<equiv> 4"
abbreviation (input) GRID_Y :: uint8_t where "GRID_Y \<equiv> 3"
abbreviation (input) T_BLANK :: uint8_t where "T_BLANK \<equiv> 0"
abbreviation (input) T_NUM_START :: uint8_t where "T_NUM_START \<equiv> 10"
abbreviation (input) T_NUM10_L :: uint8_t where "T_NUM10_L \<equiv> 19"
abbreviation (input) T_EMPTY_CELL :: uint8_t where "T_EMPTY_CELL \<equiv> 31"
abbreviation (input) T_TILE_TL :: uint8_t where "T_TILE_TL \<equiv> 32"
abbreviation (input) T_TILE_T :: uint8_t where "T_TILE_T \<equiv> 33"
abbreviation (input) T_TILE_TR :: uint8_t where "T_TILE_TR \<equiv> 34"
abbreviation (input) T_TILE_L :: uint8_t where "T_TILE_L \<equiv> 35"
abbreviation (input) T_TILE_R :: uint8_t where "T_TILE_R \<equiv> 36"
abbreviation (input) T_TILE_BL :: uint8_t where "T_TILE_BL \<equiv> 37"
abbreviation (input) T_TILE_B :: uint8_t where "T_TILE_B \<equiv> 38"
abbreviation (input) T_TILE_BR :: uint8_t where "T_TILE_BR \<equiv> 39"
abbreviation (input) INPUT_DELAY :: uint8_t where "INPUT_DELAY \<equiv> 6"

definition cell :: "uint8_t \<Rightarrow> uint8_t \<Rightarrow> nat" where
  "cell r c = 4 * unat r + unat c"

definition board_at :: "game \<Rightarrow> uint8_t \<Rightarrow> uint8_t \<Rightarrow> uint8_t" where
  "board_at s r c = board s ! cell r c"

definition board_set :: "uint8_t \<Rightarrow> uint8_t \<Rightarrow> uint8_t \<Rightarrow> game \<Rightarrow> game" where
  "board_set r c v s = s\<lparr>board := (board s)[cell r c := v]\<rparr>"

subsection \<open>Loops with a \<open>uint8_t\<close> counter\<close>

text \<open>
  \<open>for (i = lo; i < hi; i++) body\<close> with \<open>uint8_t i\<close>. The counter cannot wrap:
  \<open>i < hi\<close> makes \<open>i + 1 \<le> hi\<close>.
\<close>

function for_loop :: "uint8_t \<Rightarrow> uint8_t \<Rightarrow> (uint8_t \<Rightarrow> 's \<Rightarrow> 's) \<Rightarrow> 's \<Rightarrow> 's" where
  "for_loop i hi body s = (if i < hi then for_loop (i + 1) hi body (body i s) else s)"
  by pat_completeness auto
termination
proof (relation "measure (\<lambda>(i, hi, body, s). unat hi - unat i)")
  show "wf (measure (\<lambda>(i, hi, body, s). unat hi - unat i))" by simp
next
  fix i hi :: uint8_t and body :: "uint8_t \<Rightarrow> 's \<Rightarrow> 's" and s :: 's
  assume lt: "i < hi"
  then have less: "unat i < unat hi" by (simp add: word_less_nat_alt)
  have "unat hi < 256" using unsigned_less [of hi] by simp
  with less have "unat (i + 1) = Suc (unat i)"
    by (simp add: unat_word_ariths)
  with less show "((i + 1, hi, body, body i s), (i, hi, body, s))
      \<in> measure (\<lambda>(i, hi, body, s). unat hi - unat i)" by simp
qed

declare for_loop.simps [simp del]

subsection \<open>The display driver\<close>

text \<open>
  \<open>set_bkg_tile_xy\<close> and \<open>wait_vbl_done\<close> belong to the GBDK library. The program only
  calls them, so each call is recorded in the trace together with the VRAM bank that is
  selected at that moment.
\<close>

definition set_bkg_tile_xy :: "uint8_t \<Rightarrow> uint8_t \<Rightarrow> uint8_t \<Rightarrow> game \<Rightarrow> game" where
  "set_bkg_tile_xy x y t s = s\<lparr>trace := trace s @ [Bkg_tile (VBK_REG s) x y t]\<rparr>"

definition wait_vbl_done :: "game \<Rightarrow> game" where
  "wait_vbl_done s = s\<lparr>trace := trace s @ [Vbl]\<rparr>"

text \<open>
  \<open>put_char(x, y, c)\<close>: the character arrives as one byte. Only the bytes \<open>'0'\<close> (48) to
  \<open>'9'\<close> (57) select a digit glyph, every other byte the blank tile; this is the same
  whether \<open>char\<close> is signed or unsigned.
\<close>

definition put_char :: "uint8_t \<Rightarrow> uint8_t \<Rightarrow> uint8_t \<Rightarrow> game \<Rightarrow> game" where
  "put_char x y c s =
     (let tile = (if 48 \<le> c \<and> c \<le> 57 then
                    (let digit = c - 48 in
                     if digit = 0 then T_NUM10_L + 1 else T_NUM_START + digit - 1)
                  else T_BLANK)
      in set_bkg_tile_xy x y tile s)"

text \<open>
  \<open>put_number(x, y, num)\<close>: the three quotients are computed on the 16-bit \<open>num\<close> and
  stored into \<open>uint8_t\<close> variables, which keeps their low 8 bits.
\<close>

definition put_number :: "uint8_t \<Rightarrow> uint8_t \<Rightarrow> uint16_t \<Rightarrow> game \<Rightarrow> game" where
  "put_number x y num s =
     (let hundreds = (ucast (num div 100) :: uint8_t);
          tens = (ucast ((num div 10) mod 10) :: uint8_t);
          ones = (ucast (num mod 10) :: uint8_t)
      in if hundreds > 0 then
           put_char (x + 2) y (48 + ones) (put_char (x + 1) y (48 + tens)
             (put_char x y (48 + hundreds) s))
         else if tens > 0 then
           put_char (x + 2) y (48 + ones) (put_char (x + 1) y (48 + tens)
             (set_bkg_tile_xy x y T_BLANK s))
         else
           put_char (x + 2) y (48 + ones) (set_bkg_tile_xy (x + 1) y T_BLANK
             (set_bkg_tile_xy x y T_BLANK s)))"

definition get_tile_palette :: "uint8_t \<Rightarrow> uint8_t" where
  "get_tile_palette tile_num =
     (if tile_num = 0 then 5
      else if tile_num \<le> 4 then 1
      else if tile_num \<le> 8 then 2
      else if tile_num \<le> 12 then 3
      else 4)"

text \<open>\<open>draw_cell(gx, gy)\<close>: first the attribute block, then the content block.\<close>

definition draw_cell :: "uint8_t \<Rightarrow> uint8_t \<Rightarrow> game \<Rightarrow> game" where
  "draw_cell gx gy s0 =
     (let tile_num = board_at s0 gy gx;
          sx = GRID_X + gx * CELL_W;
          sy = GRID_Y + gy * CELL_H;
          pal = get_tile_palette tile_num;
          s1 = s0\<lparr>VBK_REG := 1\<rparr>;
          s2 = for_loop 0 CELL_H (\<lambda>r.
                 for_loop 0 CELL_W (\<lambda>c_idx. set_bkg_tile_xy (sx + c_idx) (sy + r) pal)) s1;
          s3 = s2\<lparr>VBK_REG := 0\<rparr>
      in if tile_num = 0 then
           for_loop 0 CELL_H (\<lambda>r.
             for_loop 0 CELL_W (\<lambda>c_idx. set_bkg_tile_xy (sx + c_idx) (sy + r) T_EMPTY_CELL)) s3
         else
           (let s4 = set_bkg_tile_xy sx sy T_TILE_TL s3;
                s5 = set_bkg_tile_xy (sx + 1) sy T_TILE_T s4;
                s6 = set_bkg_tile_xy (sx + 2) sy T_TILE_TR s5;
                s7 = set_bkg_tile_xy sx (sy + 1) T_TILE_L s6;
                s8 = set_bkg_tile_xy (sx + 2) (sy + 1) T_TILE_R s7;
                s9 = set_bkg_tile_xy sx (sy + 2) T_TILE_BL s8;
                s10 = set_bkg_tile_xy (sx + 1) (sy + 2) T_TILE_B s9;
                s11 = set_bkg_tile_xy (sx + 2) (sy + 2) T_TILE_BR s10
            in if tile_num \<le> 9 then
                 set_bkg_tile_xy (sx + 1) (sy + 1) (T_NUM_START + tile_num - 1) s11
               else
                 (let pair_base = T_NUM10_L + (tile_num - 10) * 2;
                      s12 = set_bkg_tile_xy sx (sy + 1) T_TILE_L s11;
                      s13 = set_bkg_tile_xy (sx + 1) (sy + 1) pair_base s12
                  in set_bkg_tile_xy (sx + 2) (sy + 1) (pair_base + 1) s13)))"

definition draw_board :: "game \<Rightarrow> game" where
  "draw_board = for_loop 0 GRID_SIZE (\<lambda>gy. for_loop 0 GRID_SIZE (\<lambda>gx. draw_cell gx gy))"

text \<open>\<open>draw_hud()\<close>: the HUD row is \<open>y = GRID_Y + GRID_SIZE * CELL_H + 2 = 17\<close>.\<close>

definition draw_hud :: "game \<Rightarrow> game" where
  "draw_hud s0 =
     (let y = GRID_Y + GRID_SIZE * CELL_H + 2;
          s1 = s0\<lparr>VBK_REG := 1\<rparr>;
          s2 = for_loop GRID_X (GRID_X + 8) (\<lambda>i. set_bkg_tile_xy i y 7) s1;
          s3 = s2\<lparr>VBK_REG := 0\<rparr>
      in put_number (GRID_X + 1) y (move_count s3) s3)"

definition draw_cursor :: "uint8_t \<Rightarrow> uint8_t \<Rightarrow> uint8_t \<Rightarrow> game \<Rightarrow> game" where
  "draw_cursor gx gy show s0 =
     (let sx = GRID_X + gx * CELL_W;
          sy = GRID_Y + gy * CELL_H;
          s1 = s0\<lparr>VBK_REG := 1\<rparr>;
          pal = (if show \<noteq> 0 then 6 else get_tile_palette (board_at s1 gy gx));
          s2 = set_bkg_tile_xy sx sy pal s1;
          s3 = set_bkg_tile_xy (sx + 2) sy pal s2;
          s4 = set_bkg_tile_xy sx (sy + 2) pal s3;
          s5 = set_bkg_tile_xy (sx + 2) (sy + 2) pal s4
      in s5\<lparr>VBK_REG := 0\<rparr>)"

subsection \<open>Puzzle logic\<close>

text \<open>
  \<open>check_win()\<close>: the two nested loops, with the early \<open>return 0\<close>. \<open>check_win_from\<close> is
  the loop from the point where the counters are \<open>r\<close> and \<open>c_idx\<close>.
\<close>

function check_win_from :: "uint8_t \<Rightarrow> uint8_t \<Rightarrow> uint8_t \<Rightarrow> game \<Rightarrow> uint8_t" where
  "check_win_from r c_idx expected s =
     (if r < GRID_SIZE then
        if c_idx < GRID_SIZE then
          if r = GRID_SIZE - 1 \<and> c_idx = GRID_SIZE - 1 then
            if board_at s r c_idx \<noteq> EMPTY_TILE then 0
            else check_win_from r (c_idx + 1) expected s
          else
            if board_at s r c_idx \<noteq> expected then 0
            else check_win_from r (c_idx + 1) (expected + 1) s
        else check_win_from (r + 1) 0 expected s
      else 1)"
  by pat_completeness auto
termination
proof (relation "measure (\<lambda>(r, c_idx, expected, s). 5 * (4 - unat r) + (4 - unat c_idx))")
  show "wf (measure (\<lambda>(r, c_idx, expected, s). 5 * (4 - unat r) + (4 - unat c_idx)))"
    by simp
next
  fix r c_idx expected :: uint8_t and s :: game
  assume "r < GRID_SIZE" "c_idx < GRID_SIZE"
  then have "unat c_idx < 4" by (simp add: word_less_nat_alt)
  then have "unat (c_idx + 1) = Suc (unat c_idx)" by (simp add: unat_word_ariths)
  with \<open>unat c_idx < 4\<close>
  show "((r, c_idx + 1, expected, s), (r, c_idx, expected, s))
      \<in> measure (\<lambda>(r, c_idx, expected, s). 5 * (4 - unat r) + (4 - unat c_idx))"
    by simp
  then show "((r, c_idx + 1, expected + 1, s), (r, c_idx, expected, s))
      \<in> measure (\<lambda>(r, c_idx, expected, s). 5 * (4 - unat r) + (4 - unat c_idx))"
    by simp
next
  fix r c_idx expected :: uint8_t and s :: game
  assume "r < GRID_SIZE" "\<not> c_idx < GRID_SIZE"
  then have "unat r < 4" "4 \<le> unat c_idx" by (simp_all add: word_less_nat_alt)
  moreover from \<open>unat r < 4\<close> have "unat (r + 1) = Suc (unat r)"
    by (simp add: unat_word_ariths)
  ultimately show "((r + 1, 0, expected, s), (r, c_idx, expected, s))
      \<in> measure (\<lambda>(r, c_idx, expected, s). 5 * (4 - unat r) + (4 - unat c_idx))"
    by simp
qed

declare check_win_from.simps [simp del]

definition check_win :: "game \<Rightarrow> uint8_t" where
  "check_win s = check_win_from 0 0 1 s"

text \<open>
  \<open>try_move(from_r, from_c)\<close>. The differences \<open>dr\<close> and \<open>dc\<close> are \<open>int8_t\<close>: the
  operands are read as signed bytes, subtracted, and the result is stored in 8 bits.
  The first step only records the call in the trace.
\<close>

definition try_move :: "uint8_t \<Rightarrow> uint8_t \<Rightarrow> game \<Rightarrow> uint8_t \<times> game" where
  "try_move from_r from_c s0 =
     (let s = s0\<lparr>trace := trace s0 @ [Try_move_call from_r from_c (game_won s0)]\<rparr>;
          dr = (word_of_int (sint (empty_row s) - sint from_r) :: uint8_t);
          dc = (word_of_int (sint (empty_col s) - sint from_c) :: uint8_t)
      in if (dr = 0 \<and> (dc = 1 \<or> dc = - 1)) \<or> (dc = 0 \<and> (dr = 1 \<or> dr = - 1)) then
           (let s1 = board_set (empty_row s) (empty_col s) (board_at s from_r from_c) s;
                s2 = board_set from_r from_c EMPTY_TILE s1;
                old_er = empty_row s2;
                old_ec = empty_col s2;
                s3 = s2\<lparr>empty_row := from_r, empty_col := from_c\<rparr>;
                s4 = draw_cell old_ec old_er s3;
                s5 = draw_cell (empty_col s4) (empty_row s4) s4;
                s6 = s5\<lparr>move_count := move_count s5 + 1\<rparr>
            in (1, draw_hud s6))
         else (0, s))"

text \<open>\<open>init_board()\<close>: the loop state is the game together with the local \<open>val\<close>.\<close>

definition init_board :: "game \<Rightarrow> game" where
  "init_board s0 =
     (let (s1, val) =
            for_loop 0 GRID_SIZE (\<lambda>r.
              for_loop 0 GRID_SIZE (\<lambda>c_idx (s, val).
                if r = GRID_SIZE - 1 \<and> c_idx = GRID_SIZE - 1
                then (board_set r c_idx EMPTY_TILE s, val)
                else (board_set r c_idx val s, val + 1))) (s0, 1)
      in s1\<lparr>empty_row := GRID_SIZE - 1, empty_col := GRID_SIZE - 1\<rparr>)"

text \<open>
  \<open>shuffle_board()\<close>. One iteration of its loop is \<open>shuffle_iter\<close>; \<open>rnd\<close> is the byte that
  \<open>rand()\<close> returned in this iteration. The loop state is the game, the local \<open>last_dir\<close>
  and, as an observation, the list of the directions that were applied so far (a
  direction is appended exactly where the source assigns \<open>last_dir = dir\<close>).
\<close>

definition shuffle_iter ::
  "uint8_t \<Rightarrow> game \<times> uint8_t \<times> uint8_t list \<Rightarrow> game \<times> uint8_t \<times> uint8_t list" where
  "shuffle_iter rnd = (\<lambda>(s, last_dir, applied).
     (let dir = rnd AND 0x03 in
      if dir XOR last_dir = 0x01 then (s, last_dir, applied)
      else if dir = 0 then
        (if empty_row s > 0 then
           (let s1 = board_set (empty_row s) (empty_col s)
                       (board_at s (empty_row s - 1) (empty_col s)) s;
                s2 = board_set (empty_row s1 - 1) (empty_col s1) EMPTY_TILE s1
            in (s2\<lparr>empty_row := empty_row s2 - 1\<rparr>, dir, applied @ [dir]))
         else (s, last_dir, applied))
      else if dir = 1 then
        (if empty_row s < GRID_SIZE - 1 then
           (let s1 = board_set (empty_row s) (empty_col s)
                       (board_at s (empty_row s + 1) (empty_col s)) s;
                s2 = board_set (empty_row s1 + 1) (empty_col s1) EMPTY_TILE s1
            in (s2\<lparr>empty_row := empty_row s2 + 1\<rparr>, dir, applied @ [dir]))
         else (s, last_dir, applied))
      else if dir = 2 then
        (if empty_col s > 0 then
           (let s1 = board_set (empty_row s) (empty_col s)
                       (board_at s (empty_row s) (empty_col s - 1)) s;
                s2 = board_set (empty_row s1) (empty_col s1 - 1) EMPTY_TILE s1
            in (s2\<lparr>empty_col := empty_col s2 - 1\<rparr>, dir, applied @ [dir]))
         else (s, last_dir, applied))
      else if dir = 3 then
        (if empty_col s < GRID_SIZE - 1 then
           (let s1 = board_set (empty_row s) (empty_col s)
                       (board_at s (empty_row s) (empty_col s + 1)) s;
                s2 = board_set (empty_row s1) (empty_col s1 + 1) EMPTY_TILE s1
            in (s2\<lparr>empty_col := empty_col s2 + 1\<rparr>, dir, applied @ [dir]))
         else (s, last_dir, applied))
      else (s, last_dir, applied)))"

text \<open>
  The generator is GBDK's: \<open>rand_seq seed k\<close> stands for the byte that the call number
  \<open>k\<close> (from 0) of \<open>rand()\<close> returns after \<open>initrand(seed)\<close>. It is a parameter, so every
  result below holds for every generator and every seed. \<open>shuffle_upto n\<close> is the loop
  stopped after its first \<open>n\<close> iterations; the source runs 200.
\<close>

definition shuffle_upto ::
  "(uint16_t \<Rightarrow> nat \<Rightarrow> uint8_t) \<Rightarrow> uint8_t \<Rightarrow> game \<Rightarrow> game \<times> uint8_t \<times> uint8_t list" where
  "shuffle_upto rand_seq n s =
     for_loop 0 n (\<lambda>i. shuffle_iter (rand_seq (seed_counter s) (unat i))) (s, 0xFF, [])"

definition shuffle_board :: "(uint16_t \<Rightarrow> nat \<Rightarrow> uint8_t) \<Rightarrow> game \<Rightarrow> game" where
  "shuffle_board rand_seq s = fst (shuffle_upto rand_seq 200 s)"

text \<open>
  \<open>win_animation()\<close>: six beats, each followed by twenty frames of waiting.
  \<open>flash_once i\<close> is the body of the loop over \<open>i\<close>.
\<close>

definition flash_once :: "uint8_t \<Rightarrow> game \<Rightarrow> game" where
  "flash_once i s0 =
     (let s1 = s0\<lparr>VBK_REG := 1\<rparr>;
          s2 = for_loop 0 GRID_SIZE (\<lambda>gy.
                 for_loop 0 GRID_SIZE (\<lambda>gx s.
                   (let sx = GRID_X + gx * CELL_W;
                        sy = GRID_Y + gy * CELL_H;
                        pal = (if i AND 1 \<noteq> 0 then get_tile_palette (board_at s gy gx) else 6)
                    in for_loop 0 CELL_H (\<lambda>r.
                         for_loop 0 CELL_W (\<lambda>c_idx.
                           set_bkg_tile_xy (sx + c_idx) (sy + r) pal)) s))) s1;
          s3 = s2\<lparr>VBK_REG := 0\<rparr>
      in for_loop 0 20 (\<lambda>f. wait_vbl_done) s3)"

definition win_animation :: "game \<Rightarrow> game" where
  "win_animation = for_loop 0 6 flash_once"

subsection \<open>The game loop of \<open>main\<close>\<close>

text \<open>
  The button masks come from GBDK's header \<open>gb/gb.h\<close>, which is not part of the
  repository; no theorem below depends on their values.
\<close>

abbreviation (input) J_RIGHT :: uint8_t where "J_RIGHT \<equiv> 0x01"
abbreviation (input) J_LEFT :: uint8_t where "J_LEFT \<equiv> 0x02"
abbreviation (input) J_UP :: uint8_t where "J_UP \<equiv> 0x04"
abbreviation (input) J_DOWN :: uint8_t where "J_DOWN \<equiv> 0x08"
abbreviation (input) J_A :: uint8_t where "J_A \<equiv> 0x10"
abbreviation (input) J_SELECT :: uint8_t where "J_SELECT \<equiv> 0x40"

text \<open>
  The statements under \<open>if (keys & J_A)\<close> and under \<open>if (keys & J_SELECT)\<close> are the same
  (lines 631 to 645 and 648 to 659); \<open>slide_selected\<close> is that block.
\<close>

definition slide_selected :: "game \<Rightarrow> game" where
  "slide_selected s0 =
     (let s3 =
        (if board_at s0 (cursor_row s0) (cursor_col s0) \<noteq> EMPTY_TILE then
           (let (moved, s1) = try_move (cursor_row s0) (cursor_col s0) s0 in
            if moved \<noteq> 0 then
              (let s2 = draw_cursor (cursor_col s1) (cursor_row s1) 1 s1 in
               if check_win s2 \<noteq> 0 then s2\<lparr>game_won := 1\<rparr> else s2)
            else s1)
         else s0)
      in s3\<lparr>input_cooldown := INPUT_DELAY\<rparr>)"

definition move_cursor :: "uint8_t \<Rightarrow> game \<Rightarrow> game" where
  "move_cursor keys s0 =
     (let s1 = draw_cursor (cursor_col s0) (cursor_row s0) 0 s0;
          s2 = (if keys AND J_UP \<noteq> 0 \<and> cursor_row s1 > 0
                then s1\<lparr>cursor_row := cursor_row s1 - 1\<rparr> else s1);
          s3 = (if keys AND J_DOWN \<noteq> 0 \<and> cursor_row s2 < GRID_SIZE - 1
                then s2\<lparr>cursor_row := cursor_row s2 + 1\<rparr> else s2);
          s4 = (if keys AND J_LEFT \<noteq> 0 \<and> cursor_col s3 > 0
                then s3\<lparr>cursor_col := cursor_col s3 - 1\<rparr> else s3);
          s5 = (if keys AND J_RIGHT \<noteq> 0 \<and> cursor_col s4 < GRID_SIZE - 1
                then s4\<lparr>cursor_col := cursor_col s4 + 1\<rparr> else s4);
          s6 = draw_cursor (cursor_col s5) (cursor_row s5) 1 s5
      in s6\<lparr>input_cooldown := INPUT_DELAY\<rparr>)"

text \<open>
  One pass through the body of \<open>while (!game_won)\<close>; \<open>keys\<close> is what \<open>joypad()\<close> returns
  in this frame (it is read only when the cooldown has run out).
\<close>

definition tick :: "uint8_t \<Rightarrow> game \<Rightarrow> game" where
  "tick keys s0 =
     (let s1 = wait_vbl_done s0 in
      if input_cooldown s1 > 0 then s1\<lparr>input_cooldown := input_cooldown s1 - 1\<rparr>
      else
        (let s2 = (if keys AND (J_UP OR J_DOWN OR J_LEFT OR J_RIGHT) \<noteq> 0
                   then move_cursor keys s1 else s1);
             s3 = (if keys AND J_A \<noteq> 0 then slide_selected s2 else s2)
         in if keys AND J_SELECT \<noteq> 0 then slide_selected s3 else s3))"

text \<open>
  The loop \<open>while (!game_won)\<close>, run on the joypad readings of the frames to come. When
  the readings are used up the state reached so far is returned, so a result about
  \<open>game_loop\<close> speaks about every finite prefix of every run.
\<close>

fun game_loop :: "uint8_t list \<Rightarrow> game \<Rightarrow> game" where
  "game_loop [] s = s"
| "game_loop (keys # rest) s = (if game_won s = 0 then game_loop rest (tick keys s) else s)"

text \<open>
  What \<open>main\<close> does from the end of the set-up of a session on: the game loop and, once
  it has been left, the win animation. (The polling for START that follows only waits.)
\<close>

definition play :: "uint8_t list \<Rightarrow> game \<Rightarrow> game" where
  "play inputs s0 =
     (let s1 = game_loop inputs s0 in
      if game_won s1 \<noteq> 0 then win_animation s1 else s1)"

section \<open>Notions used to state the properties\<close>

subsection \<open>Board invariant\<close>

definition identifiers :: "uint8_t list" where
  "identifiers = [0, 1, 2, 3, 4, 5, 6, 7, 8, 9, 10, 11, 12, 13, 14, 15]"

definition solved_cells :: "uint8_t list" where
  "solved_cells = [1, 2, 3, 4, 5, 6, 7, 8, 9, 10, 11, 12, 13, 14, 15, 0]"

text \<open>The 16 cells hold each identifier 0..15 exactly once.\<close>

definition is_permutation :: "uint8_t list \<Rightarrow> bool" where
  "is_permutation b \<longleftrightarrow> length b = 16 \<and> list_all (\<lambda>v. count_list b v = 1) identifiers"

text \<open>The permutation invariant together with a cached empty position that is in step.\<close>

definition board_inv :: "game \<Rightarrow> bool" where
  "board_inv s \<longleftrightarrow>
     is_permutation (board s) \<and> empty_row s \<le> 3 \<and> empty_col s \<le> 3 \<and>
     board_at s (empty_row s) (empty_col s) = EMPTY_TILE"

text \<open>The arrangement of the puzzle: the cells and the cached empty position.\<close>

definition layout :: "game \<Rightarrow> uint8_t list \<times> uint8_t \<times> uint8_t" where
  "layout s = (board s, empty_row s, empty_col s)"

subsection \<open>Adjacency in the words of the specification\<close>

definition manhattan :: "uint8_t \<Rightarrow> uint8_t \<Rightarrow> uint8_t \<Rightarrow> uint8_t \<Rightarrow> int" where
  "manhattan r1 c1 r2 c2 = \<bar>uint r1 - uint r2\<bar> + \<bar>uint c1 - uint c2\<bar>"

definition cardinally_adjacent :: "uint8_t \<Rightarrow> uint8_t \<Rightarrow> uint8_t \<Rightarrow> uint8_t \<Rightarrow> bool" where
  "cardinally_adjacent r1 c1 r2 c2 \<longleftrightarrow> manhattan r1 c1 r2 c2 = 1 \<and> (r1 = r2 \<or> c1 = c2)"

subsection \<open>Sequences of legal slides\<close>

text \<open>
  \<open>slide_all ms s\<close> plays the targets \<open>ms\<close> one after the other with \<open>try_move\<close>; it
  is \<open>None\<close> as soon as a target lies outside the grid or \<open>try_move\<close> refuses it.
\<close>

fun slide_all :: "(uint8_t \<times> uint8_t) list \<Rightarrow> game \<Rightarrow> game option" where
  "slide_all [] s = Some s"
| "slide_all ((r, c) # ms) s =
     (if r \<le> 3 \<and> c \<le> 3 \<and> fst (try_move r c s) = 1
      then slide_all ms (snd (try_move r c s)) else None)"

definition solvable :: "game \<Rightarrow> bool" where
  "solvable s \<longleftrightarrow> (\<exists>ms s'. slide_all ms s = Some s' \<and> check_win s' = 1)"

subsection \<open>Directions of the shuffle\<close>

text \<open>
  Direction 0 moves the empty cell up, 1 down, 2 left, 3 right; 0 and 1 are opposite,
  and so are 2 and 3.
\<close>

definition opposite :: "uint8_t \<Rightarrow> uint8_t \<Rightarrow> bool" where
  "opposite d e \<longleftrightarrow> (d = 0 \<and> e = 1) \<or> (d = 1 \<and> e = 0) \<or> (d = 2 \<and> e = 3) \<or> (d = 3 \<and> e = 2)"

fun no_reversal :: "uint8_t list \<Rightarrow> bool" where
  "no_reversal (d # e # ds) = (\<not> opposite d e \<and> no_reversal (e # ds))"
| "no_reversal _ = True"

text \<open>
  The position of the empty cell as the program caches it, and the position one step
  away from it in direction \<open>d\<close>: \<open>shuffle_board\<close> decrements \<open>empty_row\<close> in case 0,
  increments it in case 1, decrements \<open>empty_col\<close> in case 2 and increments it in case 3.
\<close>

definition empty_pos :: "game \<Rightarrow> uint8_t \<times> uint8_t" where
  "empty_pos s = (empty_row s, empty_col s)"

fun neighbour :: "uint8_t \<Rightarrow> uint8_t \<times> uint8_t \<Rightarrow> uint8_t \<times> uint8_t" where
  "neighbour d (r, c) =
     (if d = 0 then (r - 1, c) else if d = 1 then (r + 1, c)
      else if d = 2 then (r, c - 1) else if d = 3 then (r, c + 1) else (r, c))"

text \<open>
  The direction of the step from position \<open>p\<close> to position \<open>q\<close>: none if the empty
  cell has not moved, 255 if it has moved by anything else than one step.
\<close>

definition direction_between :: "uint8_t \<times> uint8_t \<Rightarrow> uint8_t \<times> uint8_t \<Rightarrow> uint8_t option" where
  "direction_between p q =
     (if q = p then None
      else if q = neighbour 0 p then Some 0
      else if q = neighbour 1 p then Some 1
      else if q = neighbour 2 p then Some 2
      else if q = neighbour 3 p then Some 3
      else Some 0xFF)"

text \<open>The directions of the steps along a list of positions, in order.\<close>

fun slides :: "(uint8_t \<times> uint8_t) list \<Rightarrow> uint8_t list" where
  "slides (p # q # ps) =
     (case direction_between p q of None \<Rightarrow> slides (q # ps) | Some d \<Rightarrow> d # slides (q # ps))"
| "slides _ = []"

text \<open>
  The position of the empty cell before the loop of \<open>shuffle_board\<close> and after each of
  its first \<open>k\<close> iterations.
\<close>

definition shuffle_path ::
  "(uint16_t \<Rightarrow> nat \<Rightarrow> uint8_t) \<Rightarrow> nat \<Rightarrow> game \<Rightarrow> (uint8_t \<times> uint8_t) list" where
  "shuffle_path rand_seq k s =
     map (\<lambda>j. empty_pos (fst (shuffle_upto rand_seq (of_nat j) s))) [0..<Suc k]"

subsection \<open>Reading the trace\<close>

text \<open>
  The events that a run from \<open>s\<close> to \<open>t\<close> has added to the trace, and a run that
  has added only events with the property \<open>P\<close>.
\<close>

definition new_events :: "game \<Rightarrow> game \<Rightarrow> event list" where
  "new_events s t = drop (length (trace s)) (trace t)"

definition adds_only :: "(event \<Rightarrow> bool) \<Rightarrow> game \<Rightarrow> game \<Rightarrow> bool" where
  "adds_only P s t \<longleftrightarrow> (\<exists>evs. trace t = trace s @ evs \<and> list_all P evs)"

text \<open>A call of \<open>try_move\<close> that was made while \<open>game_won\<close> was still 0.\<close>

fun call_before_win :: "event \<Rightarrow> bool" where
  "call_before_win (Try_move_call r c won) = (won = 0)"
| "call_before_win _ = True"

text \<open>An event that is not a call of \<open>try_move\<close>.\<close>

fun no_call :: "event \<Rightarrow> bool" where
  "no_call (Try_move_call r c won) = False"
| "no_call _ = True"


fun writes_to :: "uint8_t \<Rightarrow> uint8_t \<Rightarrow> uint8_t \<Rightarrow> event \<Rightarrow> uint8_t option" where
  "writes_to bank x y (Bkg_tile bank' x' y' t) =
     (if bank' = bank \<and> x' = x \<and> y' = y then Some t else None)"
| "writes_to bank x y _ = None"

text \<open>
  \<open>shown evs bank x y\<close>: the value that the events \<open>evs\<close> leave in layer \<open>bank\<close> at the
  screen tile \<open>(x, y)\<close> (the last write wins), or \<open>None\<close> if they never write there.
\<close>

fun shown :: "event list \<Rightarrow> uint8_t \<Rightarrow> uint8_t \<Rightarrow> uint8_t \<Rightarrow> uint8_t option" where
  "shown [] bank x y = None"
| "shown (e # es) bank x y =
     (case shown es bank x y of Some t \<Rightarrow> Some t | None \<Rightarrow> writes_to bank x y e)"

text \<open>The nine screen tiles of the grid cell in row \<open>r\<close> and column \<open>c\<close>, row by row.\<close>

definition cell_block :: "uint8_t \<Rightarrow> uint8_t \<Rightarrow> (uint8_t \<times> uint8_t) list" where
  "cell_block r c =
     concat (map (\<lambda>dy. map (\<lambda>dx. (GRID_X + c * CELL_W + dx, GRID_Y + r * CELL_H + dy))
       [0, 1, 2]) [0, 1, 2])"

fun event_in :: "(uint8_t \<times> uint8_t) list \<Rightarrow> event \<Rightarrow> bool" where
  "event_in tiles (Bkg_tile bank x y t) = ((x, y) \<in> set tiles)"
| "event_in tiles _ = False"

fun is_write :: "event \<Rightarrow> bool" where
  "is_write (Bkg_tile bank x y t) = True"
| "is_write _ = False"

text \<open>
  Some event writes into the block of the cell; every tile of the block is written in
  both layers.
\<close>

definition touches :: "event list \<Rightarrow> uint8_t \<Rightarrow> uint8_t \<Rightarrow> bool" where
  "touches evs r c \<longleftrightarrow> list_ex (event_in (cell_block r c)) evs"

definition repaints :: "event list \<Rightarrow> uint8_t \<Rightarrow> uint8_t \<Rightarrow> bool" where
  "repaints evs r c \<longleftrightarrow>
     list_all (\<lambda>(x, y). list_ex (\<lambda>e. writes_to 0 x y e \<noteq> None) evs \<and>
                       list_ex (\<lambda>e. writes_to 1 x y e \<noteq> None) evs) (cell_block r c)"

text \<open>A write into the HUD row, \<open>y = 17\<close>.\<close>

fun in_hud_row :: "event \<Rightarrow> bool" where
  "in_hud_row (Bkg_tile bank x y t) = (y = 17)"
| "in_hud_row _ = False"

text \<open>The eight writes of the border frame of a cell, in the order of \<open>draw_cell\<close>.\<close>

definition cell_frame :: "uint8_t \<Rightarrow> uint8_t \<Rightarrow> event list" where
  "cell_frame gx gy =
     (let sx = GRID_X + gx * CELL_W; sy = GRID_Y + gy * CELL_H in
      [Bkg_tile 0 sx sy T_TILE_TL, Bkg_tile 0 (sx + 1) sy T_TILE_T,
       Bkg_tile 0 (sx + 2) sy T_TILE_TR, Bkg_tile 0 sx (sy + 1) T_TILE_L,
       Bkg_tile 0 (sx + 2) (sy + 1) T_TILE_R, Bkg_tile 0 sx (sy + 2) T_TILE_BL,
       Bkg_tile 0 (sx + 1) (sy + 2) T_TILE_B, Bkg_tile 0 (sx + 2) (sy + 2) T_TILE_BR])"

text \<open>The content layer of the block of a cell after the events, tile by tile.\<close>

definition block_content :: "event list \<Rightarrow> uint8_t \<Rightarrow> uint8_t \<Rightarrow> uint8_t option list" where
  "block_content evs r c = map (\<lambda>(x, y). shown evs 0 x y) (cell_block r c)"

text \<open>The attribute writes of one block, all with the palette \<open>pal\<close>.\<close>

definition block_attributes :: "uint8_t \<Rightarrow> uint8_t \<Rightarrow> uint8_t \<Rightarrow> event list" where
  "block_attributes r c pal = map (\<lambda>(x, y). Bkg_tile 1 x y pal) (cell_block r c)"

subsection \<open>The win animation, beat by beat\<close>



definition normal_palette :: "game \<Rightarrow> uint8_t \<Rightarrow> uint8_t \<Rightarrow> uint8_t" where
  "normal_palette s r c = get_tile_palette (board_at s r c)"

subsection \<open>Glyphs of the HUD\<close>

text \<open>
  The tile that \<open>put_char\<close> uses for a decimal digit, and the digit that a tile of the
  HUD stands for when it is read back (a blank counts as nothing, that is 0).
\<close>

definition digit_glyph :: "nat \<Rightarrow> uint8_t" where
  "digit_glyph d = (if d = 0 then 20 else of_nat (9 + d))"

definition glyph_value :: "uint8_t \<Rightarrow> nat option" where
  "glyph_value t =
     (if t = T_BLANK \<or> t = 20 then Some 0
      else if 10 \<le> t \<and> t \<le> 18 then Some (unat t - 9)
      else None)"

text \<open>The eight attribute writes of \<open>draw_hud\<close>, palette 7 at \<open>x = 4, ..., 11\<close>.\<close>

definition hud_attributes :: "event list" where
  "hud_attributes = map (\<lambda>x. Bkg_tile 1 x 17 7) [4, 5, 6, 7, 8, 9, 10, 11]"

text \<open>The number that the three HUD tiles at \<open>x = 5, 6, 7\<close> in the content layer show.\<close>

definition hud_number :: "event list \<Rightarrow> nat option" where
  "hud_number evs =
     (case (shown evs 0 5 17, shown evs 0 6 17, shown evs 0 7 17) of
        (Some h, Some t, Some u) \<Rightarrow>
          (case (glyph_value h, glyph_value t, glyph_value u) of
             (Some a, Some b, Some c) \<Rightarrow> Some (100 * a + 10 * b + c)
           | _ \<Rightarrow> None)
      | _ \<Rightarrow> None)"

subsection \<open>Everything but the display\<close>

text \<open>Two states agree on every variable of the program; only \<open>VBK_REG\<close> and the trace may differ.\<close>

definition same_logic :: "game \<Rightarrow> game \<Rightarrow> bool" where
  "same_logic s t \<longleftrightarrow>
     board t = board s \<and> empty_row t = empty_row s \<and> empty_col t = empty_col s \<and>
     cursor_row t = cursor_row s \<and> cursor_col t = cursor_col s \<and>
     move_count t = move_count s \<and> game_won t = game_won s \<and>
     input_cooldown t = input_cooldown s \<and> seed_counter t = seed_counter s"

subsection \<open>Example states\<close>

definition solved_game :: game where
  "solved_game =
     \<lparr>board = [1, 2, 3, 4, 5, 6, 7, 8, 9, 10, 11, 12, 13, 14, 15, 0],
      empty_row = 3, empty_col = 3, cursor_row = 0, cursor_col = 0, move_count = 0,
      game_won = 0, input_cooldown = 0, seed_counter = 0, VBK_REG = 0, trace = []\<rparr>"

text \<open>One slide away from the solved arrangement, with the cursor on tile 15.\<close>

definition almost_solved :: game where
  "almost_solved =
     \<lparr>board = [1, 2, 3, 4, 5, 6, 7, 8, 9, 10, 11, 12, 13, 14, 0, 15],
      empty_row = 3, empty_col = 2, cursor_row = 3, cursor_col = 3, move_count = 0,
      game_won = 0, input_cooldown = 0, seed_counter = 0, VBK_REG = 0, trace = []\<rparr>"

section \<open>Properties\<close>

subsection \<open>Loops and the display functions\<close>

lemma for_loop_induct:
  "P s \<Longrightarrow> (\<And>i s. i < hi \<Longrightarrow> P s \<Longrightarrow> P (body i s)) \<Longrightarrow> P (for_loop lo hi body s)"
proof (induction lo hi body s rule: for_loop.induct)
  case (1 i hi body s)
  show ?case
  proof (cases "i < hi")
    case True
    from True "1.prems"(1) have "P (body i s)" by (rule "1.prems"(2))
    with True have "P (for_loop (i + 1) hi body (body i s))"
      by (rule "1.IH") (rule "1.prems"(2))
    with True show ?thesis by (subst for_loop.simps) simp
  next
    case False
    then show ?thesis using "1.prems"(1) by (subst for_loop.simps) simp
  qed
qed

lemma same_logic_refl: "same_logic s s"
  by (simp add: same_logic_def)

lemma same_logic_VBK: "same_logic s t \<Longrightarrow> same_logic s (t\<lparr>VBK_REG := v\<rparr>)"
  by (simp add: same_logic_def)

lemma same_logic_tile: "same_logic s t \<Longrightarrow> same_logic s (set_bkg_tile_xy x y v t)"
  by (simp add: same_logic_def set_bkg_tile_xy_def)

lemma same_logic_vbl: "same_logic s t \<Longrightarrow> same_logic s (wait_vbl_done t)"
  by (simp add: same_logic_def wait_vbl_done_def)

lemma same_logic_for:
  "same_logic s t \<Longrightarrow> (\<And>i u. same_logic s u \<Longrightarrow> same_logic s (body i u)) \<Longrightarrow>
   same_logic s (for_loop lo hi body t)"
  by (rule for_loop_induct)

lemma same_logic_put_char: "same_logic s t \<Longrightarrow> same_logic s (put_char x y c t)"
  by (simp add: put_char_def Let_def same_logic_tile)

lemma same_logic_put_number: "same_logic s t \<Longrightarrow> same_logic s (put_number x y n t)"
  by (simp add: put_number_def Let_def same_logic_tile same_logic_put_char)

lemma same_logic_if:
  "same_logic s a \<Longrightarrow> same_logic s b \<Longrightarrow> same_logic s (if c then a else b)"
  by simp

lemmas same_logic_intros =
  same_logic_if same_logic_VBK same_logic_tile same_logic_vbl same_logic_for same_logic_put_char
  same_logic_put_number

lemma same_logic_draw_cell: "same_logic s t \<Longrightarrow> same_logic s (draw_cell gx gy t)"
  unfolding draw_cell_def Let_def
  by (intro same_logic_intros)

lemma same_logic_draw_hud: "same_logic s t \<Longrightarrow> same_logic s (draw_hud t)"
  unfolding draw_hud_def Let_def
  by (intro same_logic_intros)

lemma same_logic_draw_cursor: "same_logic s t \<Longrightarrow> same_logic s (draw_cursor gx gy sh t)"
  unfolding draw_cursor_def Let_def
  by (intro same_logic_intros)

lemma same_logic_draw_board: "same_logic s t \<Longrightarrow> same_logic s (draw_board t)"
  unfolding draw_board_def
  by (intro same_logic_intros same_logic_draw_cell)

lemma same_logic_win_animation: "same_logic s t \<Longrightarrow> same_logic s (win_animation t)"
  unfolding win_animation_def flash_once_def Let_def
  by (intro same_logic_intros)

lemmas draw_cell_logic [simp] = same_logic_draw_cell [OF same_logic_refl, unfolded same_logic_def]
lemmas draw_hud_logic [simp] = same_logic_draw_hud [OF same_logic_refl, unfolded same_logic_def]
lemmas draw_cursor_logic [simp] =
  same_logic_draw_cursor [OF same_logic_refl, unfolded same_logic_def]
lemmas win_animation_logic [simp] =
  same_logic_win_animation [OF same_logic_refl, unfolded same_logic_def]


lemma try_move_fst:
  "fst (try_move r c s) =
     (if (empty_row s - r = 0 \<and> (empty_col s - c = 1 \<or> empty_col s - c = - 1)) \<or>
         (empty_col s - c = 0 \<and> (empty_row s - r = 1 \<or> empty_row s - r = - 1))
      then 1 else 0)"
  by (simp add: try_move_def Let_def)


subsection \<open>The win test\<close>

lemma length16_cases:
  assumes "length (b :: 'a list) = 16"
  obtains x0 x1 x2 x3 x4 x5 x6 x7 x8 x9 x10 x11 x12 x13 x14 x15
  where "b = [x0, x1, x2, x3, x4, x5, x6, x7, x8, x9, x10, x11, x12, x13, x14, x15]"
  using assms by (auto simp: length_Suc_conv eval_nat_numeral)

lemma check_win_from_cell:
  "r < 4 \<Longrightarrow> c < 4 \<Longrightarrow> \<not> (r = 3 \<and> c = 3) \<Longrightarrow>
   (check_win_from r c e s = 1) = (board_at s r c = e \<and> check_win_from r (c + 1) (e + 1) s = 1)"
  by (subst check_win_from.simps) auto

lemma check_win_from_last:
  "(check_win_from 3 3 e s = 1) = (board_at s 3 3 = 0 \<and> check_win_from 3 4 e s = 1)"
  by (subst check_win_from.simps) simp

lemma check_win_from_row:
  "r < 4 \<Longrightarrow> \<not> c < 4 \<Longrightarrow> check_win_from r c e s = check_win_from (r + 1) 0 e s"
  by (subst check_win_from.simps) simp

lemma check_win_from_end: "\<not> r < 4 \<Longrightarrow> check_win_from r c e s = 1"
  by (subst check_win_from.simps) simp

lemma check_win_cells:
  "check_win s = 1 \<longleftrightarrow>
     board_at s 0 0 = 1 \<and> board_at s 0 1 = 2 \<and> board_at s 0 2 = 3 \<and> board_at s 0 3 = 4 \<and>
     board_at s 1 0 = 5 \<and> board_at s 1 1 = 6 \<and> board_at s 1 2 = 7 \<and> board_at s 1 3 = 8 \<and>
     board_at s 2 0 = 9 \<and> board_at s 2 1 = 10 \<and> board_at s 2 2 = 11 \<and> board_at s 2 3 = 12 \<and>
     board_at s 3 0 = 13 \<and> board_at s 3 1 = 14 \<and> board_at s 3 2 = 15 \<and> board_at s 3 3 = 0"
  by (simp add: check_win_def check_win_from_cell check_win_from_last check_win_from_row
      check_win_from_end)

lemma check_win_from_01: "check_win_from r c e s = 0 \<or> check_win_from r c e s = 1"
  by (induction r c e s rule: check_win_from.induct) (subst (1 2) check_win_from.simps, simp)

lemma check_win_01: "check_win s = 0 \<or> check_win s = 1"
  unfolding check_win_def by (rule check_win_from_01)

lemma check_win_solved:
  assumes "length (board s) = 16"
  shows "check_win s = 1 \<longleftrightarrow> board s = solved_cells"
proof -
  from assms obtain x0 x1 x2 x3 x4 x5 x6 x7 x8 x9 x10 x11 x12 x13 x14 x15
    where b: "board s = [x0, x1, x2, x3, x4, x5, x6, x7, x8, x9, x10, x11, x12, x13, x14, x15]"
    by (rule length16_cases)
  show ?thesis
    unfolding check_win_cells board_at_def b solved_cells_def by (simp add: cell_def)
qed

lemma distinct_solved_cells: "distinct solved_cells"
  by (simp add: solved_cells_def)

lemma swapped_differs:
  assumes "i < 16" "j < 16" "i \<noteq> j"
  shows "solved_cells[i := solved_cells ! j, j := solved_cells ! i] \<noteq> solved_cells"
proof
  assume eq: "solved_cells[i := solved_cells ! j, j := solved_cells ! i] = solved_cells"
  have len: "length solved_cells = 16" by (simp add: solved_cells_def)
  from assms len have "solved_cells[i := solved_cells ! j, j := solved_cells ! i] ! j = solved_cells ! i"
    by simp
  with eq have "solved_cells ! j = solved_cells ! i" by simp
  with assms len distinct_solved_cells show False
    by (simp add: nth_eq_iff_index_eq)
qed

text \<open>
  C5. On every board of 16 cells, in particular on every permutation of 0..15,
  \<open>check_win\<close> returns 1 exactly for the arrangement 1, 2, ..., 15, 0 in row-major order
  and 0 otherwise; it returns 0 for every board obtained from that arrangement by
  exchanging the contents of two distinct cells.
\<close>

theorem check_win_exactly_solved:
  assumes "length (board s) = 16"
  shows "(check_win s = 1 \<longleftrightarrow> board s = solved_cells) \<and>
         (check_win s = 0 \<longleftrightarrow> board s \<noteq> solved_cells) \<and>
         (\<forall>i < 16. \<forall>j < 16. i \<noteq> j \<longrightarrow>
            board s = solved_cells[i := solved_cells ! j, j := solved_cells ! i] \<longrightarrow>
            check_win s = 0)"
proof -
  have one: "check_win s = 1 \<longleftrightarrow> board s = solved_cells"
    using assms by (rule check_win_solved)
  have zero: "check_win s = 0 \<longleftrightarrow> board s \<noteq> solved_cells"
    using one check_win_01 [of s] by auto
  have swap: "check_win s = 0"
    if "i < 16" "j < 16" "i \<noteq> j"
      "board s = solved_cells[i := solved_cells ! j, j := solved_cells ! i]" for i j
    using that zero swapped_differs [of i j] by simp
  from one zero swap show ?thesis by blast
qed

theorem check_win_exactly_solved_witness:
  "length (board solved_game) = 16 \<and> check_win solved_game = 1 \<and>
   length (board almost_solved) = 16 \<and> check_win almost_solved = 0 \<and>
   board almost_solved = solved_cells[14 := solved_cells ! 15, 15 := solved_cells ! 14]"
  using check_win_exactly_solved [of solved_game] check_win_exactly_solved [of almost_solved]
  by (simp add: solved_game_def almost_solved_def solved_cells_def)

subsection \<open>Coordinates\<close>

lemma le3_cases:
  fixes x :: uint8_t
  assumes "x \<le> 3"
  shows "x = 0 \<or> x = 1 \<or> x = 2 \<or> x = 3"
proof -
  from assms have "unat x \<le> 3" by (simp add: word_le_nat_alt)
  then have disj: "unat x = 0 \<or> unat x = 1 \<or> unat x = 2 \<or> unat x = 3" by arith
  have eq: "x = of_nat k" if "unat x = k" for k using that by auto
  from disj eq [of 0] eq [of 1] eq [of 2] eq [of 3] show ?thesis by auto
qed

lemma unat_le3: "(x :: uint8_t) \<le> 3 \<Longrightarrow> unat x \<le> 3"
  by (simp add: word_le_nat_alt)

lemma cell_less: "r \<le> 3 \<Longrightarrow> c \<le> 3 \<Longrightarrow> cell r c < 16"
  using unat_le3 [of r] unat_le3 [of c] by (simp add: cell_def)

lemma cell_inject:
  assumes "r \<le> 3" "c \<le> 3" "r' \<le> 3" "c' \<le> 3"
  shows "cell r c = cell r' c' \<longleftrightarrow> r = r' \<and> c = c'"
proof -
  have "unat r = unat r' \<and> unat c = unat c'" if "cell r c = cell r' c'"
    using that unat_le3 [OF assms(2)] unat_le3 [OF assms(4)] by (simp add: cell_def) arith
  then show ?thesis by (auto simp: word_unat_eq_iff cell_def)
qed

lemma axis_step:
  fixes a b :: uint8_t
  assumes "a \<le> 3" "b \<le> 3"
  shows "(a - b = 1 \<or> a - b = - 1) \<longleftrightarrow> \<bar>uint a - uint b\<bar> = 1"
  using le3_cases [OF assms(1)] le3_cases [OF assms(2)] by (elim disjE) simp_all

lemma axis_same:
  fixes a b :: uint8_t
  shows "a - b = 0 \<longleftrightarrow> a = b" and "\<bar>uint a - uint b\<bar> = 0 \<longleftrightarrow> a = b"
  by (simp_all add: word_uint_eq_iff [of a b])

lemma not_adjacent_self:
  fixes a :: uint8_t
  shows "\<not> (a - a = 1 \<or> a - a = - 1)"
  by simp

lemma adjacency_test:
  assumes "er \<le> 3" "ec \<le> 3" "r \<le> 3" "c \<le> 3"
  shows "((er - r = 0 \<and> (ec - c = 1 \<or> ec - c = - 1)) \<or>
          (ec - c = 0 \<and> (er - r = 1 \<or> er - r = - 1))) \<longleftrightarrow>
         cardinally_adjacent r c er ec"
proof -
  have rows: "(er - r = 1 \<or> er - r = - 1) \<longleftrightarrow> \<bar>uint r - uint er\<bar> = 1"
    using axis_step [OF assms(1) assms(3)] by (simp add: abs_minus_commute)
  have cols: "(ec - c = 1 \<or> ec - c = - 1) \<longleftrightarrow> \<bar>uint c - uint ec\<bar> = 1"
    using axis_step [OF assms(2) assms(4)] by (simp add: abs_minus_commute)
  have r0: "er - r = 0 \<longleftrightarrow> r = er" and c0: "ec - c = 0 \<longleftrightarrow> c = ec" by auto
  have r0': "\<bar>uint r - uint er\<bar> = 0 \<longleftrightarrow> r = er" and c0': "\<bar>uint c - uint ec\<bar> = 0 \<longleftrightarrow> c = ec"
    by (simp_all add: word_uint_eq_iff)
  show ?thesis
    unfolding cardinally_adjacent_def manhattan_def rows cols r0 c0
    using r0' c0' by auto
qed


subsection \<open>Permutations of the identifiers\<close>

lemma distinct_identifiers: "distinct identifiers"
  by (simp add: identifiers_def)

lemma length_identifiers: "length identifiers = 16"
  by (simp add: identifiers_def)

lemma count_list_distinct: "distinct xs \<Longrightarrow> x \<in> set xs \<Longrightarrow> count_list xs x = 1"
  by (induction xs) auto

lemma is_permutation_iff:
  "is_permutation b \<longleftrightarrow> distinct b \<and> set b = set identifiers"
proof
  assume perm: "is_permutation b"
  then have len: "length b = 16" and once: "\<forall>v \<in> set identifiers. count_list b v = 1"
    by (simp_all add: is_permutation_def list_all_iff)
  have sub: "set identifiers \<subseteq> set b"
  proof
    fix v assume "v \<in> set identifiers"
    with once have "count_list b v \<noteq> 0" by simp
    then show "v \<in> set b" by (simp add: count_list_0_iff)
  qed
  have "card (set identifiers) = 16"
    using distinct_card [OF distinct_identifiers] length_identifiers by simp
  moreover have "card (set identifiers) \<le> card (set b)"
    using sub by (simp add: card_mono)
  moreover have "card (set b) \<le> length b" by (rule card_length)
  ultimately have card: "card (set b) = 16" "card (set b) = card (set identifiers)"
    using len by simp_all
  from card(1) len have "distinct b" by (simp add: card_distinct)
  moreover have "set identifiers = set b"
    using finite_set sub card(2) [symmetric] by (rule card_subset_eq)
  ultimately show "distinct b \<and> set b = set identifiers" by simp
next
  assume a: "distinct b \<and> set b = set identifiers"
  then have "length b = card (set identifiers)" by (simp add: distinct_card [symmetric])
  then have len: "length b = 16"
    using distinct_card [OF distinct_identifiers] length_identifiers by simp
  have "count_list b v = 1" if "v \<in> set identifiers" for v
  proof -
    from that a have "v \<in> set b" by simp
    with a show ?thesis by (simp add: count_list_distinct)
  qed
  with len show "is_permutation b" by (simp add: is_permutation_def list_all_iff)
qed

lemma is_permutation_length: "is_permutation b \<Longrightarrow> length b = 16"
  by (simp add: is_permutation_def)

lemma is_permutation_swap:
  assumes "is_permutation b" "i < 16" "j < 16" "b ! i = 0"
  shows "is_permutation (b[i := b ! j, j := 0])"
proof -
  from assms(1) have len: "length b = 16" by (rule is_permutation_length)
  with assms(1-3) have "distinct (b[i := b ! j, j := b ! i])"
    and "set (b[i := b ! j, j := b ! i]) = set identifiers"
    by (simp_all add: is_permutation_iff set_swap)
  then have "is_permutation (b[i := b ! j, j := b ! i])" by (simp add: is_permutation_iff)
  with assms(4) show ?thesis by simp
qed

lemma is_permutation_solved: "is_permutation solved_cells"
  by (simp add: is_permutation_def solved_cells_def identifiers_def)

subsection \<open>What \<open>try_move\<close> does to the variables\<close>

lemma try_move_refused:
  "fst (try_move r c s) \<noteq> 1 \<Longrightarrow>
   try_move r c s = (0, s\<lparr>trace := trace s @ [Try_move_call r c (game_won s)]\<rparr>)"
  by (simp add: try_move_def Let_def split: if_splits)

lemma try_move_moved:
  assumes "fst (try_move r c s) = 1"
  shows "board (snd (try_move r c s)) =
           (board s)[cell (empty_row s) (empty_col s) := board s ! cell r c, cell r c := 0]"
    and "empty_row (snd (try_move r c s)) = r"
    and "empty_col (snd (try_move r c s)) = c"
    and "move_count (snd (try_move r c s)) = move_count s + 1"
    and "cursor_row (snd (try_move r c s)) = cursor_row s"
    and "cursor_col (snd (try_move r c s)) = cursor_col s"
    and "game_won (snd (try_move r c s)) = game_won s"
    and "input_cooldown (snd (try_move r c s)) = input_cooldown s"
    and "seed_counter (snd (try_move r c s)) = seed_counter s"
  using assms
  by (auto simp add: try_move_def Let_def board_set_def board_at_def split: if_splits)

lemma try_move_adjacent_iff:
  assumes "empty_row s \<le> 3" "empty_col s \<le> 3" "r \<le> 3" "c \<le> 3"
  shows "fst (try_move r c s) = 1 \<longleftrightarrow> cardinally_adjacent r c (empty_row s) (empty_col s)"
  unfolding try_move_fst adjacency_test [OF assms, symmetric] by simp

lemma cardinally_adjacent_distinct:
  "cardinally_adjacent r c er ec \<Longrightarrow> (r, c) \<noteq> (er, ec)"
  by (auto simp: cardinally_adjacent_def manhattan_def)

lemma try_move_inv:
  assumes "board_inv s" "r \<le> 3" "c \<le> 3"
  shows "board_inv (snd (try_move r c s))"
proof (cases "fst (try_move r c s) = 1")
  case False
  then show ?thesis using assms(1)
    by (simp add: try_move_refused board_inv_def board_at_def)
next
  case True
  from assms(1) have perm: "is_permutation (board s)" and er: "empty_row s \<le> 3"
    and ec: "empty_col s \<le> 3" and e0: "board s ! cell (empty_row s) (empty_col s) = 0"
    by (simp_all add: board_inv_def board_at_def)
  have i: "cell (empty_row s) (empty_col s) < 16" using er ec by (rule cell_less)
  have j: "cell r c < 16" using assms(2,3) by (rule cell_less)
  have "is_permutation ((board s)[cell (empty_row s) (empty_col s) := board s ! cell r c,
      cell r c := 0])"
    using perm i j e0 by (rule is_permutation_swap)
  moreover have "length (board s) = 16" using perm by (rule is_permutation_length)
  ultimately show ?thesis using True assms(2,3) j
    by (simp add: board_inv_def board_at_def try_move_moved)
qed

text \<open>
  C1. On a board that satisfies the invariant, and for a target inside the grid,
  \<open>try_move\<close> returns 1 exactly when the target is cardinally adjacent to the empty
  cell. When it returns 1 the identifier of the target has moved into the old empty
  cell, the target holds 0, the cached empty position is the target and the move counter
  has been incremented by 1 (in 16-bit arithmetic; without wrap-around below 65535).
  Otherwise it returns 0 and board, cached empty position and move counter are unchanged.
\<close>

theorem try_move_iff_adjacent:
  assumes "board_inv s" "r \<le> 3" "c \<le> 3"
  shows "(fst (try_move r c s) = 1 \<longleftrightarrow>
            cardinally_adjacent r c (empty_row s) (empty_col s)) \<and>
         (fst (try_move r c s) = 1 \<longrightarrow>
            board (snd (try_move r c s)) =
              (board s)[cell (empty_row s) (empty_col s) := board_at s r c, cell r c := EMPTY_TILE] \<and>
            board_at (snd (try_move r c s)) (empty_row s) (empty_col s) = board_at s r c \<and>
            board_at (snd (try_move r c s)) r c = EMPTY_TILE \<and>
            empty_row (snd (try_move r c s)) = r \<and>
            empty_col (snd (try_move r c s)) = c \<and>
            move_count (snd (try_move r c s)) = move_count s + 1 \<and>
            (move_count s \<noteq> 65535 \<longrightarrow>
               unat (move_count (snd (try_move r c s))) = unat (move_count s) + 1)) \<and>
         (fst (try_move r c s) \<noteq> 1 \<longrightarrow>
            fst (try_move r c s) = 0 \<and>
            board (snd (try_move r c s)) = board s \<and>
            empty_row (snd (try_move r c s)) = empty_row s \<and>
            empty_col (snd (try_move r c s)) = empty_col s \<and>
            move_count (snd (try_move r c s)) = move_count s)"
proof -
  from assms(1) have er: "empty_row s \<le> 3" and ec: "empty_col s \<le> 3"
    and len: "length (board s) = 16"
    by (simp_all add: board_inv_def is_permutation_def)
  have adj: "fst (try_move r c s) = 1 \<longleftrightarrow> cardinally_adjacent r c (empty_row s) (empty_col s)"
    using er ec assms(2,3) by (rule try_move_adjacent_iff)
  have moved: "board (snd (try_move r c s)) =
        (board s)[cell (empty_row s) (empty_col s) := board_at s r c, cell r c := EMPTY_TILE] \<and>
      board_at (snd (try_move r c s)) (empty_row s) (empty_col s) = board_at s r c \<and>
      board_at (snd (try_move r c s)) r c = EMPTY_TILE \<and>
      empty_row (snd (try_move r c s)) = r \<and>
      empty_col (snd (try_move r c s)) = c \<and>
      move_count (snd (try_move r c s)) = move_count s + 1 \<and>
      (move_count s \<noteq> 65535 \<longrightarrow>
         unat (move_count (snd (try_move r c s))) = unat (move_count s) + 1)"
    if one: "fst (try_move r c s) = 1"
  proof -
    from one adj have "(r, c) \<noteq> (empty_row s, empty_col s)"
      using cardinally_adjacent_distinct [of r c "empty_row s" "empty_col s"] by blast
    then have ne: "cell (empty_row s) (empty_col s) \<noteq> cell r c"
      using cell_inject [OF er ec assms(2,3)] by auto
    have i: "cell (empty_row s) (empty_col s) < 16" using er ec by (rule cell_less)
    have j: "cell r c < 16" using assms(2,3) by (rule cell_less)
    have count: "unat (move_count s + 1) = unat (move_count s) + 1" if "move_count s \<noteq> 65535"
    proof -
      from that have "unat (move_count s) \<noteq> 65535"
        by (simp add: word_unat_eq_iff)
      moreover have "unat (move_count s) < 65536"
        using unsigned_less [of "move_count s"] by simp
      ultimately show ?thesis by (simp add: unat_word_ariths)
    qed
    show ?thesis
      using one ne i j len count
      by (simp add: try_move_moved board_at_def)
  qed
  have refused: "fst (try_move r c s) = 0 \<and>
      board (snd (try_move r c s)) = board s \<and>
      empty_row (snd (try_move r c s)) = empty_row s \<and>
      empty_col (snd (try_move r c s)) = empty_col s \<and>
      move_count (snd (try_move r c s)) = move_count s"
    if "fst (try_move r c s) \<noteq> 1"
    using try_move_refused [OF that] by simp
  from adj moved refused show ?thesis by blast
qed

theorem try_move_iff_adjacent_witness:
  "board_inv solved_game \<and> (3 :: uint8_t) \<le> 3 \<and> (2 :: uint8_t) \<le> 3 \<and> (0 :: uint8_t) \<le> 3 \<and>
   fst (try_move 3 2 solved_game) = 1 \<and> fst (try_move 2 3 solved_game) = 1 \<and>
   fst (try_move 2 2 solved_game) = 0 \<and> fst (try_move 0 0 solved_game) = 0 \<and>
   board (snd (try_move 3 2 solved_game)) = [1, 2, 3, 4, 5, 6, 7, 8, 9, 10, 11, 12, 13, 14, 0, 15] \<and>
   move_count (snd (try_move 3 2 solved_game)) = 1 \<and>
   board (snd (try_move 2 2 solved_game)) = board solved_game \<and>
   move_count (snd (try_move 2 2 solved_game)) = 0"
  using try_move_iff_adjacent [of solved_game 3 2] try_move_iff_adjacent [of solved_game 2 3]
    try_move_iff_adjacent [of solved_game 2 2] try_move_iff_adjacent [of solved_game 0 0]
  by (simp add: solved_game_def board_inv_def is_permutation_def identifiers_def board_at_def
      cell_def cardinally_adjacent_def manhattan_def)

subsection \<open>The arrangement decides\<close>

lemma board_inv_layout: "layout s = layout t \<Longrightarrow> board_inv s = board_inv t"
  by (simp add: layout_def board_inv_def board_at_def)

lemma check_win_layout: "layout s = layout t \<Longrightarrow> (check_win s = 1) = (check_win t = 1)"
  by (simp add: layout_def check_win_cells board_at_def)

lemma try_move_layout:
  assumes "layout s = layout t"
  shows "fst (try_move r c s) = fst (try_move r c t)"
    and "layout (snd (try_move r c s)) = layout (snd (try_move r c t))"
proof -
  from assms show fst: "fst (try_move r c s) = fst (try_move r c t)"
    by (simp add: try_move_fst layout_def)
  show "layout (snd (try_move r c s)) = layout (snd (try_move r c t))"
  proof (cases "fst (try_move r c s) = 1")
    case True
    with fst have "fst (try_move r c t) = 1" by simp
    with True assms show ?thesis by (simp add: layout_def try_move_moved)
  next
    case False
    with fst have "fst (try_move r c t) \<noteq> 1" by simp
    with False assms show ?thesis by (simp add: layout_def try_move_refused)
  qed
qed

lemma slide_all_layout:
  "layout s = layout t \<Longrightarrow> slide_all ms s = Some s' \<Longrightarrow>
   \<exists>t'. slide_all ms t = Some t' \<and> layout s' = layout t'"
proof (induction ms arbitrary: s t)
  case Nil
  then show ?case by simp
next
  case (Cons m ms)
  obtain r c where m: "m = (r, c)" by (cases m)
  from Cons.prems(2) have ok: "r \<le> 3" "c \<le> 3" "fst (try_move r c s) = 1"
    and rest: "slide_all ms (snd (try_move r c s)) = Some s'"
    by (simp_all add: m split: if_splits)
  have same: "fst (try_move r c s) = fst (try_move r c t)"
    and next_layout: "layout (snd (try_move r c s)) = layout (snd (try_move r c t))"
    using Cons.prems(1) by (rule try_move_layout)+
  from Cons.IH [OF next_layout rest] obtain t'
    where "slide_all ms (snd (try_move r c t)) = Some t'" "layout s' = layout t'" by blast
  with ok same show ?case by (simp add: m)
qed

lemma solvable_layout:
  assumes "layout s = layout t" "solvable s"
  shows "solvable t"
proof -
  from assms(2) obtain ms s' where run: "slide_all ms s = Some s'" and won: "check_win s' = 1"
    unfolding solvable_def by blast
  from slide_all_layout [OF assms(1) run] obtain t'
    where "slide_all ms t = Some t'" and "layout s' = layout t'" by blast
  with won check_win_layout [of s' t'] show ?thesis
    unfolding solvable_def by blast
qed

text \<open>A slide can be taken back by sliding the tile that has just moved.\<close>

lemma try_move_undo:
  assumes "board_inv s" "r \<le> 3" "c \<le> 3" "fst (try_move r c s) = 1"
  shows "fst (try_move (empty_row s) (empty_col s) (snd (try_move r c s))) = 1"
    and "layout (snd (try_move (empty_row s) (empty_col s) (snd (try_move r c s)))) = layout s"
proof -
  let ?t = "snd (try_move r c s)"
  from assms(1) have er: "empty_row s \<le> 3" and ec: "empty_col s \<le> 3"
    and len: "length (board s) = 16"
    and e0: "board s ! cell (empty_row s) (empty_col s) = 0"
    by (simp_all add: board_inv_def is_permutation_def board_at_def)
  have adj: "cardinally_adjacent r c (empty_row s) (empty_col s)"
    using assms(4) try_move_adjacent_iff [OF er ec assms(2,3)] by simp
  then have rev_adj: "cardinally_adjacent (empty_row s) (empty_col s) r c"
    by (auto simp: cardinally_adjacent_def manhattan_def abs_minus_commute)
  have t: "empty_row ?t = r" "empty_col ?t = c"
    "board ?t = (board s)[cell (empty_row s) (empty_col s) := board s ! cell r c, cell r c := 0]"
    using assms(4) by (simp_all add: try_move_moved)
  show one: "fst (try_move (empty_row s) (empty_col s) ?t) = 1"
    using try_move_adjacent_iff [of ?t "empty_row s" "empty_col s"] t er ec assms(2,3) rev_adj
    by simp
  have ne: "cell (empty_row s) (empty_col s) \<noteq> cell r c"
    using cardinally_adjacent_distinct [OF adj] cell_inject [OF er ec assms(2,3)] by auto
  have i: "cell (empty_row s) (empty_col s) < 16" using er ec by (rule cell_less)
  have j: "cell r c < 16" using assms(2,3) by (rule cell_less)
  have "(board s)[cell (empty_row s) (empty_col s) := 0] = board s"
    using e0 list_update_id [of "board s" "cell (empty_row s) (empty_col s)"] by simp
  then have "board (snd (try_move (empty_row s) (empty_col s) ?t)) = board s"
    using ne i j len
    by (simp add: try_move_moved [OF one] t list_update_swap [of "cell r c"])
  then show "layout (snd (try_move (empty_row s) (empty_col s) ?t)) = layout s"
    by (simp add: layout_def try_move_moved [OF one])
qed

subsection \<open>One iteration of the shuffle\<close>

lemma dec_le3: "(x :: uint8_t) \<le> 3 \<Longrightarrow> x - 1 \<le> 3 \<or> x = 0"
  using le3_cases [of x] by auto

lemma inc_le3:
  assumes "(x :: uint8_t) < 3"
  shows "x + 1 \<le> 3"
proof -
  from assms have "x \<le> 3" by simp
  from le3_cases [OF this] assms show ?thesis by auto
qed

text \<open>
  An iteration either leaves the game alone or does to the arrangement what a successful
  \<open>try_move\<close> does; in the second case the direction is the one drawn, it is not the
  opposite of \<open>last_dir\<close>, and it becomes the new \<open>last_dir\<close>.
\<close>

lemma shuffle_iter_cases:
  assumes "board_inv s"
  obtains
    (stay) "shuffle_iter d (s, ld, ap) = (s, ld, ap)"
  | (slide) r c t where
      "shuffle_iter d (s, ld, ap) = (t, d AND 3, ap @ [d AND 3])"
      "(d AND 3) XOR ld \<noteq> 1" "r \<le> 3" "c \<le> 3"
      "fst (try_move r c s) = 1" "layout t = layout (snd (try_move r c s))"
proof -
  from assms have er: "empty_row s \<le> 3" and ec: "empty_col s \<le> 3"
    by (simp_all add: board_inv_def)
  let ?dir = "d AND 3"
  have slide_to: thesis
    if eq: "shuffle_iter d (s, ld, ap) = (t, ?dir, ap @ [?dir])"
      and nx: "?dir XOR ld \<noteq> 1" and r: "r \<le> 3" and c: "c \<le> 3"
      and adj: "(empty_row s - r = 0 \<and> (empty_col s - c = 1 \<or> empty_col s - c = - 1)) \<or>
                (empty_col s - c = 0 \<and> (empty_row s - r = 1 \<or> empty_row s - r = - 1))"
      and lay: "layout t =
        ((board s)[cell (empty_row s) (empty_col s) := board s ! cell r c, cell r c := 0], r, c)"
    for r c t
  proof -
    from adj have one: "fst (try_move r c s) = 1" by (simp add: try_move_fst)
    with lay have "layout t = layout (snd (try_move r c s))"
      by (simp add: layout_def try_move_moved)
    with eq nx r c one show thesis by (rule slide)
  qed
  show thesis
  proof (cases "?dir XOR ld = 1")
    case True
    then show thesis by (intro stay) (simp add: shuffle_iter_def)
  next
    case nx: False
    consider (up) "?dir = 0" "empty_row s > 0" | (down) "?dir = 1" "empty_row s < 3"
      | (left) "?dir = 2" "empty_col s > 0" | (right) "?dir = 3" "empty_col s < 3"
      | (none) "\<not> (?dir = 0 \<and> empty_row s > 0)" "\<not> (?dir = 1 \<and> empty_row s < 3)"
          "\<not> (?dir = 2 \<and> empty_col s > 0)" "\<not> (?dir = 3 \<and> empty_col s < 3)"
      by blast
    then show thesis
    proof cases
      case up
      from up(2) er have r: "empty_row s - 1 \<le> 3" using dec_le3 [of "empty_row s"] by auto
      have "shuffle_iter d (s, ld, ap) =
          (s\<lparr>board := (board s)[cell (empty_row s) (empty_col s) :=
               board s ! cell (empty_row s - 1) (empty_col s),
               cell (empty_row s - 1) (empty_col s) := 0],
             empty_row := empty_row s - 1\<rparr>, ?dir, ap @ [?dir])"
        using up nx by (simp add: shuffle_iter_def Let_def board_set_def board_at_def)
      then show thesis using nx r ec
        by (rule slide_to) (simp_all add: layout_def)
    next
      case down
      from down(2) have r: "empty_row s + 1 \<le> 3" by (rule inc_le3)
      have "shuffle_iter d (s, ld, ap) =
          (s\<lparr>board := (board s)[cell (empty_row s) (empty_col s) :=
               board s ! cell (empty_row s + 1) (empty_col s),
               cell (empty_row s + 1) (empty_col s) := 0],
             empty_row := empty_row s + 1\<rparr>, ?dir, ap @ [?dir])"
        using down nx by (simp add: shuffle_iter_def Let_def board_set_def board_at_def)
      then show thesis using nx r ec
        by (rule slide_to) (simp_all add: layout_def)
    next
      case left
      from left(2) ec have c: "empty_col s - 1 \<le> 3" using dec_le3 [of "empty_col s"] by auto
      have "shuffle_iter d (s, ld, ap) =
          (s\<lparr>board := (board s)[cell (empty_row s) (empty_col s) :=
               board s ! cell (empty_row s) (empty_col s - 1),
               cell (empty_row s) (empty_col s - 1) := 0],
             empty_col := empty_col s - 1\<rparr>, ?dir, ap @ [?dir])"
        using left nx by (simp add: shuffle_iter_def Let_def board_set_def board_at_def)
      then show thesis using nx er c
        by (rule slide_to) (simp_all add: layout_def)
    next
      case right
      from right(2) have c: "empty_col s + 1 \<le> 3" by (rule inc_le3)
      have "shuffle_iter d (s, ld, ap) =
          (s\<lparr>board := (board s)[cell (empty_row s) (empty_col s) :=
               board s ! cell (empty_row s) (empty_col s + 1),
               cell (empty_row s) (empty_col s + 1) := 0],
             empty_col := empty_col s + 1\<rparr>, ?dir, ap @ [?dir])"
        using right nx by (simp add: shuffle_iter_def Let_def board_set_def board_at_def)
      then show thesis using nx er c
        by (rule slide_to) (simp_all add: layout_def)
    next
      case none
      with nx show thesis
        by (intro stay) (auto simp add: shuffle_iter_def Let_def)
    qed
  qed
qed

subsection \<open>Unrolled loops\<close>

lemma for_loop_0_3: "for_loop 0 3 body s = body 2 (body 1 (body 0 s))"
  by (simp add: for_loop.simps)

lemma for_loop_0_4: "for_loop 0 4 body s = body 3 (body 2 (body 1 (body 0 s)))"
  by (simp add: for_loop.simps)

lemma for_loop_split:
  "lo \<le> k \<Longrightarrow> k \<le> hi \<Longrightarrow> for_loop lo hi body s = for_loop k hi body (for_loop lo k body s)"
proof (induction lo k body s rule: for_loop.induct)
  case (1 i k body s)
  show ?case
  proof (cases "i < k")
    case True
    then have "i + 1 \<le> k" by (rule inc_le)
    with True "1.prems" have
      "for_loop (i + 1) hi body (body i s) = for_loop k hi body (for_loop (i + 1) k body (body i s))"
      by (intro "1.IH")
    moreover from True "1.prems" have "i < hi" by simp
    ultimately show ?thesis using True
      by (subst for_loop.simps, subst (3) for_loop.simps) simp
  next
    case False
    with "1.prems" have "i = k" by simp
    then show ?thesis by (subst (3) for_loop.simps) simp
  qed
qed

lemma for_loop_last:
  assumes "lo \<le> n" "n < hi"
  shows "for_loop lo (n + 1) body s = body n (for_loop lo n body s)"
proof -
  from assms(2) have "unat n < unat hi" by (simp add: word_less_nat_alt)
  moreover have "unat hi < 256" using unsigned_less [of hi] by simp
  ultimately have "unat (n + 1) = Suc (unat n)" by (simp add: unat_word_ariths)
  then have lt: "n < n + 1" by (simp add: word_less_nat_alt)
  then have le: "n \<le> n + 1" by simp
  have nlt: "\<not> n + 1 < n + 1" by simp
  have "for_loop lo (n + 1) body s = for_loop n (n + 1) body (for_loop lo n body s)"
    using assms(1) le by (rule for_loop_split)
  also have "\<dots> = body n (for_loop lo n body s)"
    using lt nlt by (subst for_loop.simps, subst for_loop.simps) simp
  finally show ?thesis .
qed

subsection \<open>\<open>init_board\<close>\<close>

lemma init_board_result:
  assumes "length (board s) = 16"
  shows "init_board s = s\<lparr>board := solved_cells, empty_row := 3, empty_col := 3\<rparr>"
proof -
  from assms obtain x0 x1 x2 x3 x4 x5 x6 x7 x8 x9 x10 x11 x12 x13 x14 x15
    where b: "board s = [x0, x1, x2, x3, x4, x5, x6, x7, x8, x9, x10, x11, x12, x13, x14, x15]"
    by (rule length16_cases)
  show ?thesis
    by (simp add: init_board_def for_loop_0_4 board_set_def cell_def b solved_cells_def)
qed

lemma board_inv_init:
  assumes "length (board s) = 16"
  shows "board_inv (init_board s)"
  unfolding init_board_result [OF assms]
  by (simp add: board_inv_def is_permutation_solved board_at_def)
    (simp add: solved_cells_def cell_def)

subsection \<open>The shuffle keeps the invariant\<close>

lemma board_inv_shuffle_iter:
  assumes "board_inv s"
  shows "board_inv (fst (shuffle_iter d (s, ld, ap)))"
proof (rule shuffle_iter_cases [OF assms, of d ld ap])
  assume "shuffle_iter d (s, ld, ap) = (s, ld, ap)"
  with assms show ?thesis by simp
next
  fix r c t
  assume eq: "shuffle_iter d (s, ld, ap) = (t, d AND 3, ap @ [d AND 3])"
    and r: "r \<le> 3" and c: "c \<le> 3"
    and lay: "layout t = layout (snd (try_move r c s))"
  from assms r c have "board_inv (snd (try_move r c s))" by (rule try_move_inv)
  with board_inv_layout [OF lay] have "board_inv t" by simp
  with eq show ?thesis by simp
qed

lemma board_inv_shuffle_upto:
  assumes "board_inv s"
  shows "board_inv (fst (shuffle_upto rand_seq n s))"
  unfolding shuffle_upto_def
proof (rule for_loop_induct)
  show "board_inv (fst (s, 0xFF :: uint8_t, [] :: uint8_t list))" using assms by simp
next
  fix i :: uint8_t and st :: "game \<times> uint8_t \<times> uint8_t list"
  assume "board_inv (fst st)"
  then show "board_inv (fst (shuffle_iter (rand_seq (seed_counter s) (unat i)) st))"
    by (cases st) (simp add: board_inv_shuffle_iter)
qed

lemma shuffle_upto_step:
  assumes "n < 200"
  shows "shuffle_upto rand_seq (n + 1) s =
         shuffle_iter (rand_seq (seed_counter s) (unat n)) (shuffle_upto rand_seq n s)"
proof -
  let ?body = "\<lambda>i. shuffle_iter (rand_seq (seed_counter s) (unat i))"
  have "(0 :: uint8_t) \<le> n" by simp
  from this assms
  have "for_loop 0 (n + 1) ?body (s, 0xFF, []) = ?body n (for_loop 0 n ?body (s, 0xFF, []))"
    by (rule for_loop_last)
  then show ?thesis by (simp add: shuffle_upto_def)
qed

text \<open>
  C2. The invariant (each identifier 0..15 exactly once in the 16 cells, the cached empty
  position inside the grid and pointing at the cell that holds 0) holds after
  \<open>init_board\<close>, is kept by every iteration of the loop of \<open>shuffle_board\<close> whatever is
  drawn, so it holds after each of the 200 iterations, and is kept by every call of
  \<open>try_move\<close> on a target inside the grid, whether the call moves a tile or not.
\<close>

theorem board_invariant_preserved:
  assumes "length (board s0) = 16" and "board_inv s" and "r \<le> 3" and "c \<le> 3"
  shows "board_inv (init_board s0) \<and>
         board_inv (fst (shuffle_iter d (s, last_dir, applied))) \<and>
         (\<forall>n \<le> 200. board_inv (fst (shuffle_upto rand_seq n (init_board s0)))) \<and>
         (\<forall>n < 200. shuffle_upto rand_seq (n + 1) (init_board s0) =
            shuffle_iter (rand_seq (seed_counter (init_board s0)) (unat n))
              (shuffle_upto rand_seq n (init_board s0))) \<and>
         board_inv (shuffle_board rand_seq (init_board s0)) \<and>
         board_inv (snd (try_move r c s))"
proof -
  have init: "board_inv (init_board s0)" using assms(1) by (rule board_inv_init)
  have iter: "board_inv (fst (shuffle_iter d (s, last_dir, applied)))"
    using assms(2) by (rule board_inv_shuffle_iter)
  have upto: "board_inv (fst (shuffle_upto rand_seq n (init_board s0)))" for n
    using init by (rule board_inv_shuffle_upto)
  have move: "board_inv (snd (try_move r c s))" using assms(2-4) by (rule try_move_inv)
  have step: "shuffle_upto rand_seq (n + 1) (init_board s0) =
      shuffle_iter (rand_seq (seed_counter (init_board s0)) (unat n))
        (shuffle_upto rand_seq n (init_board s0))" if "n < 200" for n
    using that by (rule shuffle_upto_step)
  have board: "board_inv (shuffle_board rand_seq (init_board s0))"
    unfolding shuffle_board_def by (rule upto)
  from init iter upto step board move show ?thesis by blast
qed

theorem board_invariant_preserved_witness:
  "length (board solved_game) = 16 \<and> board_inv almost_solved \<and>
   (3 :: uint8_t) \<le> 3 \<and> (200 :: uint8_t) \<le> 200 \<and> (199 :: uint8_t) < 200 \<and>
   board_inv (init_board solved_game) \<and>
   board_inv (fst (shuffle_iter 2 (almost_solved, 0xFF, []))) \<and>
   board_inv (fst (shuffle_upto (\<lambda>seed k. of_nat k) 200 (init_board solved_game))) \<and>
   board_inv (shuffle_board (\<lambda>seed k. of_nat k) (init_board solved_game)) \<and>
   board_inv (snd (try_move 3 3 almost_solved))"
  using board_invariant_preserved [of solved_game almost_solved 3 3 2 "0xFF" "[]"
      "\<lambda>seed k. of_nat k"]
  by (simp add: solved_game_def almost_solved_def board_inv_def is_permutation_def
      identifiers_def board_at_def cell_def)

subsection \<open>The shuffle can be undone\<close>

lemma solvable_prepend:
  assumes "r \<le> 3" "c \<le> 3" "fst (try_move r c u) = 1" "solvable (snd (try_move r c u))"
  shows "solvable u"
proof -
  from assms(4) obtain ms s' where "slide_all ms (snd (try_move r c u)) = Some s'"
    and "check_win s' = 1" unfolding solvable_def by blast
  with assms(1-3) have "slide_all ((r, c) # ms) u = Some s' \<and> check_win s' = 1" by simp
  then show ?thesis unfolding solvable_def by blast
qed

lemma solvable_shuffle_iter:
  assumes "board_inv s" "solvable s"
  shows "solvable (fst (shuffle_iter d (s, ld, ap)))"
proof (rule shuffle_iter_cases [OF assms(1), of d ld ap])
  assume "shuffle_iter d (s, ld, ap) = (s, ld, ap)"
  with assms show ?thesis by simp
next
  fix r c t
  assume eq: "shuffle_iter d (s, ld, ap) = (t, d AND 3, ap @ [d AND 3])"
    and r: "r \<le> 3" and c: "c \<le> 3" and one: "fst (try_move r c s) = 1"
    and lay: "layout t = layout (snd (try_move r c s))"
  let ?u = "snd (try_move r c s)"
  from assms(1) have er: "empty_row s \<le> 3" and ec: "empty_col s \<le> 3"
    by (simp_all add: board_inv_def)
  have back1: "fst (try_move (empty_row s) (empty_col s) ?u) = 1"
    and back2: "layout (snd (try_move (empty_row s) (empty_col s) ?u)) = layout s"
    using assms(1) r c one by (rule try_move_undo)+
  from back2 [symmetric] assms(2)
  have "solvable (snd (try_move (empty_row s) (empty_col s) ?u))" by (rule solvable_layout)
  with er ec back1 have "solvable ?u" by (rule solvable_prepend)
  with lay [symmetric] have "solvable t" by (rule solvable_layout)
  with eq show ?thesis by simp
qed

lemma solvable_shuffle_upto:
  assumes "board_inv s" "solvable s"
  shows "solvable (fst (shuffle_upto rand_seq n s))"
proof -
  have "board_inv (fst (shuffle_upto rand_seq n s)) \<and> solvable (fst (shuffle_upto rand_seq n s))"
    unfolding shuffle_upto_def
  proof (rule for_loop_induct)
    show "board_inv (fst (s, 0xFF :: uint8_t, [] :: uint8_t list)) \<and>
          solvable (fst (s, 0xFF :: uint8_t, [] :: uint8_t list))"
      using assms by simp
  next
    fix i :: uint8_t and st :: "game \<times> uint8_t \<times> uint8_t list"
    assume "board_inv (fst st) \<and> solvable (fst st)"
    then show "board_inv (fst (shuffle_iter (rand_seq (seed_counter s) (unat i)) st)) \<and>
               solvable (fst (shuffle_iter (rand_seq (seed_counter s) (unat i)) st))"
      by (cases st) (simp add: board_inv_shuffle_iter solvable_shuffle_iter)
  qed
  then show ?thesis ..
qed

lemma solvable_init:
  assumes "length (board s) = 16"
  shows "solvable (init_board s)"
proof -
  have "check_win (init_board s) = 1"
    using assms by (simp add: check_win_solved init_board_result solved_cells_def)
  then have "slide_all [] (init_board s) = Some (init_board s) \<and> check_win (init_board s) = 1"
    by simp
  then show ?thesis unfolding solvable_def by blast
qed

text \<open>
  C3. Whatever the seed and whatever the generator draws, the board that \<open>shuffle_board\<close>
  produces from the solved board can be brought back to the solved arrangement by a
  finite sequence of successful \<open>try_move\<close> calls on targets inside the grid; the same
  holds after any number of iterations of the loop.
\<close>

theorem shuffle_board_solvable:
  assumes "length (board s) = 16"
  shows "solvable (shuffle_board rand_seq (init_board s)) \<and>
         (\<forall>n. solvable (fst (shuffle_upto rand_seq n (init_board s))))"
  using board_inv_init [OF assms] solvable_init [OF assms]
  by (simp add: shuffle_board_def solvable_shuffle_upto)

theorem shuffle_board_solvable_witness:
  "length (board solved_game) = 16 \<and>
   solvable (shuffle_board (\<lambda>seed k. of_nat k) (init_board solved_game))"
  using shuffle_board_solvable [of solved_game "\<lambda>seed k. of_nat k"]
  by (simp add: solved_game_def)

subsection \<open>The directions that the shuffle applies\<close>

lemma drawn_direction: "(d :: uint8_t) AND 3 \<le> 3"
  by (rule word_and_le1)

lemma opposite_xor:
  assumes "opposite e d"
  shows "d XOR e = 1"
  using assms by (auto simp: opposite_def)

lemma no_reversal_snoc:
  "no_reversal ap \<Longrightarrow> ap = [] \<or> \<not> opposite (last ap) d \<Longrightarrow> no_reversal (ap @ [d])"
  by (induction ap rule: no_reversal.induct) auto

lemma shuffle_iter_trail:
  assumes "shuffle_iter d (s, ld, ap) = (t, ld', ap')"
  shows "(ld' = ld \<and> ap' = ap) \<or>
         (ld' = d AND 3 \<and> ap' = ap @ [d AND 3] \<and> (d AND 3) XOR ld \<noteq> 1)"
  using assms by (auto simp: shuffle_iter_def Let_def split: if_splits)

lemma shuffle_iter_rejects:
  assumes "opposite ld (d AND 3)"
  shows "shuffle_iter d (s, ld, ap) = (s, ld, ap)"
  using opposite_xor [OF assms] by (simp add: shuffle_iter_def)

lemma trail_step:
  assumes "shuffle_iter d (s, ld, ap) = (t, ld', ap')"
    and "no_reversal ap" "list_all (\<lambda>d. d \<le> 3) ap"
    and "ld = (if ap = [] then 0xFF else last ap)"
  shows "no_reversal ap' \<and> list_all (\<lambda>d. d \<le> 3) ap' \<and>
         ld' = (if ap' = [] then 0xFF else last ap')"
proof -
  from shuffle_iter_trail [OF assms(1)]
  consider "ld' = ld" "ap' = ap"
    | "ld' = d AND 3" "ap' = ap @ [d AND 3]" "(d AND 3) XOR ld \<noteq> 1"
    by blast
  then show ?thesis
  proof cases
    case 1
    with assms show ?thesis by simp
  next
    case 2
    have "ap = [] \<or> \<not> opposite (last ap) (d AND 3)"
      using 2(3) assms(4) opposite_xor [of "last ap" "d AND 3"] by auto
    with assms(2) have "no_reversal (ap @ [d AND 3])" by (rule no_reversal_snoc)
    with 2 assms(3) drawn_direction [of d] show ?thesis by simp
  qed
qed

lemma word_shift_ne:
  "(x :: uint8_t) - 1 \<noteq> x" "x + 1 \<noteq> x" "x + 1 \<noteq> x - 1" "x - 1 \<noteq> x + 1"
proof -
  show "x - 1 \<noteq> x" by simp
  show "x + 1 \<noteq> x" by simp
  have "x + 1 - (x - 1) = 2" by simp
  then show "x + 1 \<noteq> x - 1" by auto
  then show "x - 1 \<noteq> x + 1" by (rule not_sym)
qed

lemma direction_between_neighbour:
  assumes "d \<le> 3"
  shows "direction_between p (neighbour d p) = Some d"
proof -
  obtain r c where p: "p = (r, c)" by (cases p)
  from le3_cases [OF assms] show ?thesis
    by (auto simp add: p direction_between_def word_shift_ne)
qed

lemma direction_between_same: "direction_between p p = None"
  by (simp add: direction_between_def)

lemma opposite_neighbour:
  assumes "d \<le> 3" "e \<le> 3"
  shows "opposite d e \<longleftrightarrow> neighbour e (neighbour d p) = p"
proof -
  obtain r c where p: "p = (r, c)" by (cases p)
  have two: "(x :: uint8_t) - 1 - 1 \<noteq> x" "x + 1 + 1 \<noteq> x" for x
  proof -
    have "x - (x - 1 - 1) = 2" by simp
    then show "x - 1 - 1 \<noteq> x" by auto
    have "x + 1 + 1 - x = 2" by simp
    then show "x + 1 + 1 \<noteq> x" by auto
  qed
  from le3_cases [OF assms(1)] le3_cases [OF assms(2)] show ?thesis
    by (auto simp add: p opposite_def word_shift_ne two)
qed

lemma shuffle_iter_moves:
  assumes "shuffle_iter d (u, ld, ap) = (u', ld', ap')"
  shows "(u' = u \<and> ld' = ld \<and> ap' = ap) \<or>
         (ld' = d AND 3 \<and> ap' = ap @ [d AND 3] \<and> (d AND 3) XOR ld \<noteq> 1 \<and>
          empty_pos u' = neighbour (d AND 3) (empty_pos u) \<and>
          empty_pos u' \<noteq> empty_pos u \<and>
          board u' = (board u)[cell (empty_row u) (empty_col u) :=
                                 board_at u (empty_row u') (empty_col u'),
                               cell (empty_row u') (empty_col u') := EMPTY_TILE])"
  using assms
  by (auto simp add: shuffle_iter_def Let_def board_set_def board_at_def empty_pos_def
      split: if_splits)

lemma slides_snoc:
  "ps \<noteq> [] \<Longrightarrow> slides (ps @ [q]) =
     slides ps @ (case direction_between (last ps) q of None \<Rightarrow> [] | Some d \<Rightarrow> [d])"
  by (induction ps rule: slides.induct) (simp_all split: option.splits)

lemma shuffle_upto_0: "shuffle_upto rand_seq 0 s = (s, 0xFF, [])"
  by (simp add: shuffle_upto_def for_loop.simps)

lemma shuffle_path_Suc:
  "shuffle_path rand_seq (Suc k) s =
     shuffle_path rand_seq k s @ [empty_pos (fst (shuffle_upto rand_seq (of_nat (Suc k)) s))]"
  by (simp add: shuffle_path_def)

lemma shuffle_path_last:
  "last (shuffle_path rand_seq k s) = empty_pos (fst (shuffle_upto rand_seq (of_nat k) s))"
  by (simp add: shuffle_path_def)

lemma slides_shuffle_path:
  "k \<le> 200 \<Longrightarrow>
   slides (shuffle_path rand_seq k s) = snd (snd (shuffle_upto rand_seq (of_nat k) s))"
proof (induction k)
  case 0
  show ?case by (simp add: shuffle_path_def shuffle_upto_0)
next
  case (Suc k)
  then have k: "k < 200" and IH: "slides (shuffle_path rand_seq k s) =
      snd (snd (shuffle_upto rand_seq (of_nat k) s))" by simp_all
  from k have "unat (of_nat k :: uint8_t) = k" by (simp add: unat_of_nat)
  with k have lt: "(of_nat k :: uint8_t) < 200" and un: "unat (of_nat k :: uint8_t) = k"
    by (simp_all add: word_less_nat_alt)
  obtain u ld ap where st: "shuffle_upto rand_seq (of_nat k) s = (u, ld, ap)"
    by (cases "shuffle_upto rand_seq (of_nat k) s")
  obtain u' ld' ap' where it:
    "shuffle_iter (rand_seq (seed_counter s) k) (u, ld, ap) = (u', ld', ap')"
    by (cases "shuffle_iter (rand_seq (seed_counter s) k) (u, ld, ap)")
  have next_st: "shuffle_upto rand_seq (of_nat (Suc k)) s = (u', ld', ap')"
    using shuffle_upto_step [OF lt, of rand_seq s] st it un by (simp add: add.commute)
  have ne: "shuffle_path rand_seq k s \<noteq> []" by (simp add: shuffle_path_def)
  have "slides (shuffle_path rand_seq (Suc k) s) =
      ap @ (case direction_between (empty_pos u) (empty_pos u') of None \<Rightarrow> [] | Some d \<Rightarrow> [d])"
    using IH st next_st by (simp add: shuffle_path_Suc slides_snoc [OF ne] shuffle_path_last)
  moreover have "ap @ (case direction_between (empty_pos u) (empty_pos u') of
      None \<Rightarrow> [] | Some d \<Rightarrow> [d]) = ap'"
    using shuffle_iter_moves [OF it]
      direction_between_neighbour [of "rand_seq (seed_counter s) k AND 3" "empty_pos u"]
      drawn_direction [of "rand_seq (seed_counter s) k"]
    by (auto simp add: direction_between_same)
  ultimately show ?case using next_st by simp
qed

text \<open>
  C4. The directions are read off the program state: \<open>shuffle_path\<close> lists the position
  of the empty cell before the loop and after each iteration, and \<open>slides\<close> turns two
  consecutive positions that differ into the direction of the step (0 is one row up, 1
  one row down, 2 one column left, 3 one column right). Along every run of the loop of
  \<open>shuffle_board\<close>, stopped after any number of its 200 iterations, these directions
  are exactly the ones recorded where the source assigns \<open>last_dir = dir\<close>, each is one
  of the four, and no two neighbours among them are opposite, that is, no slide of the
  empty cell is followed by the slide that takes it straight back. An iteration either
  changes nothing at all, or it slides the tile next to the empty cell in the drawn
  direction into it and records that direction. \<open>last_dir\<close> is the last direction that
  was applied (255 before the first one), not the last one drawn, and an iteration that
  draws its opposite changes nothing.
\<close>

theorem shuffle_never_reverses:
  assumes "k \<le> 200"
  shows "(case shuffle_upto rand_seq n s of (t, last_dir, applied) \<Rightarrow>
            no_reversal applied \<and> list_all (\<lambda>d. d \<le> 3) applied \<and>
            last_dir = (if applied = [] then 0xFF else last applied)) \<and>
         slides (shuffle_path rand_seq k s) =
           snd (snd (shuffle_upto rand_seq (of_nat k) s)) \<and>
         no_reversal (slides (shuffle_path rand_seq k s)) \<and>
         list_all (\<lambda>d. d \<le> 3) (slides (shuffle_path rand_seq k s)) \<and>
         (\<forall>j < k. shuffle_upto rand_seq (of_nat (Suc j)) s =
            shuffle_iter (rand_seq (seed_counter s) j) (shuffle_upto rand_seq (of_nat j) s)) \<and>
         (\<forall>d u ld ap. case shuffle_iter d (u, ld, ap) of (u', ld', ap') \<Rightarrow>
            (u' = u \<and> ld' = ld \<and> ap' = ap) \<or>
            (ld' = d AND 3 \<and> ap' = ap @ [d AND 3] \<and> (d AND 3) XOR ld \<noteq> 1 \<and>
             empty_pos u' = neighbour (d AND 3) (empty_pos u) \<and>
             empty_pos u' \<noteq> empty_pos u \<and>
             board u' = (board u)[cell (empty_row u) (empty_col u) :=
                                    board_at u (empty_row u') (empty_col u'),
                                  cell (empty_row u') (empty_col u') := EMPTY_TILE])) \<and>
         (\<forall>d u ld ap. opposite ld (d AND 3) \<longrightarrow> shuffle_iter d (u, ld, ap) = (u, ld, ap)) \<and>
         (\<forall>d e p. d \<le> 3 \<and> e \<le> 3 \<longrightarrow>
            (opposite d e \<longleftrightarrow> neighbour e (neighbour d p) = p))"
proof -
  let ?ok = "\<lambda>st :: game \<times> uint8_t \<times> uint8_t list. case st of (t, last_dir, applied) \<Rightarrow>
      no_reversal applied \<and> list_all (\<lambda>d. d \<le> 3) applied \<and>
      last_dir = (if applied = [] then 0xFF else last applied)"
  have ok: "?ok (shuffle_upto rand_seq m s)" for m
    unfolding shuffle_upto_def
  proof (rule for_loop_induct)
    show "?ok (s, 0xFF, [])" by simp
  next
    fix i :: uint8_t and st :: "game \<times> uint8_t \<times> uint8_t list"
    assume ok: "?ok st"
    obtain u ld ap where st: "st = (u, ld, ap)" by (cases st)
    obtain t ld' ap' where
      eq: "shuffle_iter (rand_seq (seed_counter s) (unat i)) (u, ld, ap) = (t, ld', ap')"
      by (cases "shuffle_iter (rand_seq (seed_counter s) (unat i)) (u, ld, ap)")
    from ok st have "no_reversal ap" "list_all (\<lambda>d. d \<le> 3) ap"
      "ld = (if ap = [] then 0xFF else last ap)" by simp_all
    with eq have "no_reversal ap' \<and> list_all (\<lambda>d. d \<le> 3) ap' \<and>
         ld' = (if ap' = [] then 0xFF else last ap')" by (rule trail_step)
    with eq st show "?ok (shuffle_iter (rand_seq (seed_counter s) (unat i)) st)" by simp
  qed
  have path: "slides (shuffle_path rand_seq k s) =
      snd (snd (shuffle_upto rand_seq (of_nat k) s))"
    using assms by (rule slides_shuffle_path)
  have "?ok (shuffle_upto rand_seq (of_nat k) s)" by (rule ok)
  with path have seen: "no_reversal (slides (shuffle_path rand_seq k s))"
      "list_all (\<lambda>d. d \<le> 3) (slides (shuffle_path rand_seq k s))"
    by (simp_all add: split_beta)
  have step: "shuffle_upto rand_seq (of_nat (Suc j)) s =
      shuffle_iter (rand_seq (seed_counter s) j) (shuffle_upto rand_seq (of_nat j) s)"
    if "j < k" for j
  proof -
    from that assms have j: "j < 200" by simp
    then have un: "unat (of_nat j :: uint8_t) = j" by (simp add: unat_of_nat)
    with j have "(of_nat j :: uint8_t) < 200" by (simp add: word_less_nat_alt)
    from shuffle_upto_step [OF this, of rand_seq s] un show ?thesis
      by (simp add: add.commute)
  qed
  have iter: "case shuffle_iter d (u, ld, ap) of (u', ld', ap') \<Rightarrow>
      (u' = u \<and> ld' = ld \<and> ap' = ap) \<or>
      (ld' = d AND 3 \<and> ap' = ap @ [d AND 3] \<and> (d AND 3) XOR ld \<noteq> 1 \<and>
       empty_pos u' = neighbour (d AND 3) (empty_pos u) \<and>
       empty_pos u' \<noteq> empty_pos u \<and>
       board u' = (board u)[cell (empty_row u) (empty_col u) :=
                              board_at u (empty_row u') (empty_col u'),
                            cell (empty_row u') (empty_col u') := EMPTY_TILE])"
    for d u ld ap
  proof -
    obtain u' ld' ap' where eq: "shuffle_iter d (u, ld, ap) = (u', ld', ap')"
      by (cases "shuffle_iter d (u, ld, ap)")
    from shuffle_iter_moves [OF eq] show ?thesis unfolding eq by simp
  qed
  have geo: "opposite d e \<longleftrightarrow> neighbour e (neighbour d p) = p"
    if "d \<le> 3 \<and> e \<le> 3" for d e p
    using that opposite_neighbour [of d e p] by simp
  from ok [of n] path seen step iter shuffle_iter_rejects geo show ?thesis
    by (intro conjI allI impI) blast+
qed

theorem shuffle_never_reverses_witness:
  "(4 :: nat) \<le> 200 \<and>
   shuffle_path (\<lambda>seed k. [0, 2, 3, 2] ! k) 4 solved_game =
     [(3, 3), (2, 3), (2, 2), (2, 2), (2, 1)] \<and>
   slides (shuffle_path (\<lambda>seed k. [0, 2, 3, 2] ! k) 4 solved_game) = [0, 2, 2] \<and>
   snd (shuffle_upto (\<lambda>seed k. [0, 2, 3, 2] ! k) 4 solved_game) = (2, [0, 2, 2]) \<and>
   no_reversal [0, 2, 2] \<and> opposite 2 (3 AND 3) \<and>
   shuffle_iter 3 (solved_game, 2, [0, 2]) = (solved_game, 2, [0, 2])"
proof -
  have path: "shuffle_path (\<lambda>seed k. [0, 2, 3, 2] ! k) 4 solved_game =
     [(3, 3), (2, 3), (2, 2), (2, 2), (2, 1)]"
    by code_simp
  have log: "snd (shuffle_upto (\<lambda>seed k. [0, 2, 3, 2] ! k) 4 solved_game) = (2, [0, 2, 2])"
    by code_simp
  have opp: "opposite 2 (3 AND 3)" by (simp add: opposite_def)
  have le: "(4 :: nat) \<le> 200" by simp
  note inst = shuffle_never_reverses [of 4 "\<lambda>seed k. [0, 2, 3, 2] ! k" 4 solved_game, OF le]
  from inst have "slides (shuffle_path (\<lambda>seed k. [0, 2, 3, 2] ! k) 4 solved_game) =
      snd (snd (shuffle_upto (\<lambda>seed k. [0, 2, 3, 2] ! k) (of_nat 4) solved_game))"
    by blast
  with log
  have sl: "slides (shuffle_path (\<lambda>seed k. [0, 2, 3, 2] ! k) 4 solved_game) = [0, 2, 2]"
    by simp
  from inst
  have "no_reversal (slides (shuffle_path (\<lambda>seed k. [0, 2, 3, 2] ! k) 4 solved_game))"
    by blast
  then have nr: "no_reversal [0, 2, 2]" unfolding sl .
  from inst have "\<forall>d u ld ap. opposite ld (d AND 3) \<longrightarrow>
      shuffle_iter d (u, ld, ap) = (u, ld, ap)"
    by blast
  with opp
  have rej: "shuffle_iter 3 (solved_game, 2, [0, 2]) = (solved_game, 2, [0, 2])"
    by blast
  from le path sl log nr opp rej show ?thesis by (intro conjI)
qed

subsection \<open>What a run adds to the trace\<close>

lemma adds_only_refl: "adds_only P s s"
  by (simp add: adds_only_def)

lemma adds_only_trans: "adds_only P s t \<Longrightarrow> adds_only P t u \<Longrightarrow> adds_only P s u"
  by (auto simp: adds_only_def)

lemma adds_only_mono: "(\<And>e. P e \<Longrightarrow> Q e) \<Longrightarrow> adds_only P s t \<Longrightarrow> adds_only Q s t"
  by (auto simp: adds_only_def list_all_iff)

lemma adds_only_event: "adds_only P s t \<Longrightarrow> P e \<Longrightarrow> adds_only P s (t\<lparr>trace := trace t @ [e]\<rparr>)"
  by (auto simp: adds_only_def)

lemma adds_only_same: "adds_only P s t \<Longrightarrow> trace u = trace t \<Longrightarrow> adds_only P s u"
  by (simp add: adds_only_def)

lemma adds_only_new_events:
  "adds_only P s t \<Longrightarrow> trace t = trace s @ new_events s t \<and> list_all P (new_events s t)"
  by (auto simp: adds_only_def new_events_def)

lemma adds_only_tile:
  "(\<And>b x y v. P (Bkg_tile b x y v)) \<Longrightarrow> adds_only P s t \<Longrightarrow>
   adds_only P s (set_bkg_tile_xy x y v t)"
  by (simp add: set_bkg_tile_xy_def adds_only_event)

lemma adds_only_vbl: "P Vbl \<Longrightarrow> adds_only P s t \<Longrightarrow> adds_only P s (wait_vbl_done t)"
  by (simp add: wait_vbl_done_def adds_only_event)

lemma adds_only_VBK: "adds_only P s t \<Longrightarrow> adds_only P s (t\<lparr>VBK_REG := v\<rparr>)"
  by (simp add: adds_only_def)

lemma adds_only_if:
  "adds_only P s a \<Longrightarrow> adds_only P s b \<Longrightarrow> adds_only P s (if c then a else b)"
  by simp

lemma adds_only_for:
  "adds_only P s t \<Longrightarrow> (\<And>i u. adds_only P s u \<Longrightarrow> adds_only P s (body i u)) \<Longrightarrow>
   adds_only P s (for_loop lo hi body t)"
  by (rule for_loop_induct)

lemma adds_only_put_char:
  "(\<And>b x y v. P (Bkg_tile b x y v)) \<Longrightarrow> adds_only P s t \<Longrightarrow> adds_only P s (put_char x y c t)"
  by (simp add: put_char_def Let_def adds_only_tile)

lemma adds_only_put_number:
  assumes "\<And>b x y v. P (Bkg_tile b x y v)" "adds_only P s t"
  shows "adds_only P s (put_number x y n t)"
  unfolding put_number_def Let_def
  by (intro adds_only_if adds_only_put_char adds_only_tile assms)

lemma adds_only_draw_cell:
  assumes "\<And>b x y v. P (Bkg_tile b x y v)" "adds_only P s t"
  shows "adds_only P s (draw_cell gx gy t)"
  unfolding draw_cell_def Let_def
  by (intro adds_only_if adds_only_for adds_only_VBK adds_only_tile assms)

lemma adds_only_draw_hud:
  assumes "\<And>b x y v. P (Bkg_tile b x y v)" "adds_only P s t"
  shows "adds_only P s (draw_hud t)"
  unfolding draw_hud_def Let_def
  by (intro adds_only_put_number adds_only_for adds_only_VBK adds_only_tile assms)

lemma adds_only_draw_cursor:
  assumes "\<And>b x y v. P (Bkg_tile b x y v)" "adds_only P s t"
  shows "adds_only P s (draw_cursor gx gy sh t)"
  unfolding draw_cursor_def Let_def
  by (intro adds_only_for adds_only_VBK adds_only_tile assms)

lemma adds_only_win_animation:
  assumes "\<And>b x y v. P (Bkg_tile b x y v)" "P Vbl" "adds_only P s t"
  shows "adds_only P s (win_animation t)"
  unfolding win_animation_def flash_once_def Let_def
  by (intro adds_only_for adds_only_VBK adds_only_tile adds_only_vbl assms)

lemma adds_only_try_move:
  assumes "\<And>b x y v. P (Bkg_tile b x y v)" "P (Try_move_call r c (game_won t))"
    "adds_only P s t"
  shows "adds_only P s (snd (try_move r c t))"
proof -
  have call: "adds_only P s (t\<lparr>trace := trace t @ [Try_move_call r c (game_won t)]\<rparr>)"
    using assms(3,2) by (rule adds_only_event)
  show ?thesis
  proof (cases "fst (try_move r c t) = 1")
    case False
    with call show ?thesis by (simp add: try_move_refused)
  next
    case True
    let ?t0 = "t\<lparr>trace := trace t @ [Try_move_call r c (game_won t)],
           board := (board t)[cell (empty_row t) (empty_col t) := board t ! cell r c,
             cell r c := 0],
           empty_row := r, empty_col := c\<rparr>"
    let ?t2 = "draw_cell c r (draw_cell (empty_col t) (empty_row t) ?t0)"
    from True have "snd (try_move r c t) = draw_hud (?t2\<lparr>move_count := move_count t + 1\<rparr>)"
      by (auto simp add: try_move_def Let_def board_set_def board_at_def split: if_splits)
    moreover have "adds_only P s (draw_hud (?t2\<lparr>move_count := move_count t + 1\<rparr>))"
    proof -
      have "adds_only P s ?t0" using call by (rule adds_only_same) simp
      with assms(1) have "adds_only P s (draw_cell (empty_col t) (empty_row t) ?t0)"
        by (rule adds_only_draw_cell)
      with assms(1) have "adds_only P s ?t2" by (rule adds_only_draw_cell)
      then have "adds_only P s (?t2\<lparr>move_count := move_count t + 1\<rparr>)"
        by (rule adds_only_same) simp
      with assms(1) show ?thesis by (rule adds_only_draw_hud)
    qed
    ultimately show ?thesis by simp
  qed
qed

subsection \<open>The game loop\<close>

lemma call_before_win_tile: "call_before_win (Bkg_tile b x y v)"
  by simp

lemma no_call_tile: "no_call (Bkg_tile b x y v)"
  by simp

lemma no_call_imp: "no_call e \<Longrightarrow> call_before_win e"
  by (cases e) simp_all

text \<open>
  The block under a button: if the flag is still 0, or if the cursor is on the empty
  cell, every call of \<open>try_move\<close> that it makes is made with the flag at 0; afterwards
  again the flag is 0 or the cursor is on the empty cell.
\<close>

lemma slide_selected_calls:
  assumes len: "length (board s) = 16" and cr: "cursor_row s \<le> 3" and cc: "cursor_col s \<le> 3"
    and safe: "game_won s = 0 \<or> board_at s (cursor_row s) (cursor_col s) = 0"
  shows "adds_only call_before_win s (slide_selected s)"
    and "length (board (slide_selected s)) = 16"
    and "cursor_row (slide_selected s) = cursor_row s"
    and "cursor_col (slide_selected s) = cursor_col s"
    and "game_won (slide_selected s) = 0 \<or>
         board_at (slide_selected s) (cursor_row s) (cursor_col s) = 0"
proof -
  let ?r = "cursor_row s" and ?c = "cursor_col s"
  let ?t = "snd (try_move ?r ?c s)"
  let ?d = "draw_cursor ?c ?r 1 ?t"
  have all: "adds_only call_before_win s (slide_selected s) \<and>
     length (board (slide_selected s)) = 16 \<and>
     cursor_row (slide_selected s) = ?r \<and> cursor_col (slide_selected s) = ?c \<and>
     (game_won (slide_selected s) = 0 \<or> board_at (slide_selected s) ?r ?c = 0)"
  proof (cases "board_at s ?r ?c = 0")
    case True
    then have "slide_selected s = s\<lparr>input_cooldown := INPUT_DELAY\<rparr>"
      by (simp add: slide_selected_def)
    with len safe True show ?thesis
      by (simp add: adds_only_def board_at_def)
  next
    case False
    with safe have won0: "game_won s = 0" by simp
    have calls: "adds_only call_before_win s ?t"
      using call_before_win_tile _ adds_only_refl
      by (rule adds_only_try_move) (simp add: won0)
    show ?thesis
    proof (cases "fst (try_move ?r ?c s) = 1")
      case refused: False
      then have "fst (try_move ?r ?c s) = 0" using try_move_refused [OF refused] by simp
      with False have eq: "slide_selected s = ?t\<lparr>input_cooldown := INPUT_DELAY\<rparr>"
        by (simp add: slide_selected_def Let_def split_beta)
      have "adds_only call_before_win s (?t\<lparr>input_cooldown := INPUT_DELAY\<rparr>)"
        using calls by (rule adds_only_same) simp
      with len won0 show ?thesis
        unfolding eq by (simp add: try_move_refused [OF refused])
    next
      case moved: True
      have t: "length (board ?t) = 16" "board_at ?t ?r ?c = 0" "game_won ?t = 0"
        "cursor_row ?t = ?r" "cursor_col ?t = ?c"
        using len won0 cell_less [OF cr cc]
        by (simp_all add: try_move_moved [OF moved] board_at_def)
      have d: "adds_only call_before_win s ?d"
        using call_before_win_tile calls by (rule adds_only_draw_cursor)
      have "slide_selected s =
          (if check_win ?d \<noteq> 0 then ?d\<lparr>game_won := 1\<rparr> else ?d)\<lparr>input_cooldown := INPUT_DELAY\<rparr>"
        using False moved t by (simp add: slide_selected_def Let_def split_beta)
      moreover have "adds_only call_before_win s
          ((if check_win ?d \<noteq> 0 then ?d\<lparr>game_won := 1\<rparr> else ?d)\<lparr>input_cooldown := INPUT_DELAY\<rparr>)"
        using d by (rule adds_only_same) simp
      ultimately show ?thesis using t by (simp add: board_at_def)
    qed
  qed
  from all show "adds_only call_before_win s (slide_selected s)"
    and "length (board (slide_selected s)) = 16"
    and "cursor_row (slide_selected s) = cursor_row s"
    and "cursor_col (slide_selected s) = cursor_col s"
    and "game_won (slide_selected s) = 0 \<or>
         board_at (slide_selected s) (cursor_row s) (cursor_col s) = 0"
    by simp_all
qed

lemma adds_only_fields:
  "adds_only P s t \<Longrightarrow> adds_only P s (t\<lparr>cursor_row := r\<rparr>)"
  "adds_only P s t \<Longrightarrow> adds_only P s (t\<lparr>cursor_col := c\<rparr>)"
  "adds_only P s t \<Longrightarrow> adds_only P s (t\<lparr>input_cooldown := k\<rparr>)"
  "adds_only P s t \<Longrightarrow> adds_only P s (t\<lparr>game_won := w\<rparr>)"
  "adds_only P s t \<Longrightarrow> adds_only P s (t\<lparr>move_count := m\<rparr>)"
  by (simp_all add: adds_only_def)

lemma move_cursor_calls:
  assumes "cursor_row s \<le> 3" "cursor_col s \<le> 3"
  shows "adds_only call_before_win s (move_cursor keys s)"
    and "board (move_cursor keys s) = board s"
    and "game_won (move_cursor keys s) = game_won s"
    and "cursor_row (move_cursor keys s) \<le> 3"
    and "cursor_col (move_cursor keys s) \<le> 3"
proof -
  define s1 where "s1 = draw_cursor (cursor_col s) (cursor_row s) 0 s"
  define s2 where "s2 = (if keys AND J_UP \<noteq> 0 \<and> cursor_row s1 > 0
    then s1\<lparr>cursor_row := cursor_row s1 - 1\<rparr> else s1)"
  define s3 where "s3 = (if keys AND J_DOWN \<noteq> 0 \<and> cursor_row s2 < GRID_SIZE - 1
    then s2\<lparr>cursor_row := cursor_row s2 + 1\<rparr> else s2)"
  define s4 where "s4 = (if keys AND J_LEFT \<noteq> 0 \<and> cursor_col s3 > 0
    then s3\<lparr>cursor_col := cursor_col s3 - 1\<rparr> else s3)"
  define s5 where "s5 = (if keys AND J_RIGHT \<noteq> 0 \<and> cursor_col s4 < GRID_SIZE - 1
    then s4\<lparr>cursor_col := cursor_col s4 + 1\<rparr> else s4)"
  define s6 where "s6 = draw_cursor (cursor_col s5) (cursor_row s5) 1 s5"
  have eq: "move_cursor keys s = s6\<lparr>input_cooldown := INPUT_DELAY\<rparr>"
    unfolding move_cursor_def Let_def s1_def s2_def s3_def s4_def s5_def s6_def ..
  let ?ok = "\<lambda>t. adds_only call_before_win s t \<and> board t = board s \<and>
    game_won t = game_won s \<and> cursor_row t \<le> 3 \<and> cursor_col t \<le> 3"
  have "adds_only call_before_win s s1"
    unfolding s1_def using call_before_win_tile adds_only_refl by (rule adds_only_draw_cursor)
  with assms have 1: "?ok s1" by (simp add: s1_def)
  have "adds_only call_before_win s s2"
    unfolding s2_def using 1 by (intro adds_only_if adds_only_fields) simp_all
  moreover have "cursor_row s2 \<le> 3" using 1 dec_le3 [of "cursor_row s1"] by (auto simp: s2_def)
  ultimately have 2: "?ok s2" using 1 by (simp add: s2_def)
  have "adds_only call_before_win s s3"
    unfolding s3_def using 2 by (intro adds_only_if adds_only_fields) simp_all
  moreover have "cursor_row s3 \<le> 3" using 2 inc_le3 [of "cursor_row s2"] by (auto simp: s3_def)
  ultimately have 3: "?ok s3" using 2 by (simp add: s3_def)
  have "adds_only call_before_win s s4"
    unfolding s4_def using 3 by (intro adds_only_if adds_only_fields) simp_all
  moreover have "cursor_col s4 \<le> 3" using 3 dec_le3 [of "cursor_col s3"] by (auto simp: s4_def)
  ultimately have 4: "?ok s4" using 3 by (simp add: s4_def)
  have "adds_only call_before_win s s5"
    unfolding s5_def using 4 by (intro adds_only_if adds_only_fields) simp_all
  moreover have "cursor_col s5 \<le> 3" using 4 inc_le3 [of "cursor_col s4"] by (auto simp: s5_def)
  ultimately have 5: "?ok s5" using 4 by (simp add: s5_def)
  have "adds_only call_before_win s s6"
    unfolding s6_def using call_before_win_tile 5 by (intro adds_only_draw_cursor) simp_all
  with 5 have 6: "?ok s6" by (simp add: s6_def)
  then have "adds_only call_before_win s (s6\<lparr>input_cooldown := INPUT_DELAY\<rparr>)"
    by (intro adds_only_fields) simp
  with 6 show "adds_only call_before_win s (move_cursor keys s)"
    "board (move_cursor keys s) = board s" "game_won (move_cursor keys s) = game_won s"
    "cursor_row (move_cursor keys s) \<le> 3" "cursor_col (move_cursor keys s) \<le> 3"
    unfolding eq by simp_all
qed

lemma tick_calls:
  assumes len: "length (board s) = 16" and cr: "cursor_row s \<le> 3" and cc: "cursor_col s \<le> 3"
    and won0: "game_won s = 0"
  shows "adds_only call_before_win s (tick keys s) \<and> length (board (tick keys s)) = 16 \<and>
         cursor_row (tick keys s) \<le> 3 \<and> cursor_col (tick keys s) \<le> 3"
proof -
  define s1 where "s1 = wait_vbl_done s"
  define s2 where "s2 = (if keys AND (J_UP OR J_DOWN OR J_LEFT OR J_RIGHT) \<noteq> 0
    then move_cursor keys s1 else s1)"
  define s3 where "s3 = (if keys AND J_A \<noteq> 0 then slide_selected s2 else s2)"
  define s4 where "s4 = (if keys AND J_SELECT \<noteq> 0 then slide_selected s3 else s3)"
  have eq: "tick keys s =
    (if input_cooldown s1 > 0 then s1\<lparr>input_cooldown := input_cooldown s1 - 1\<rparr> else s4)"
    unfolding tick_def Let_def s1_def s2_def s3_def s4_def ..
  let ?inv = "\<lambda>t. length (board t) = 16 \<and> cursor_row t \<le> 3 \<and> cursor_col t \<le> 3"
  let ?safe = "\<lambda>t. game_won t = 0 \<or> board_at t (cursor_row t) (cursor_col t) = 0"
  have a1: "adds_only call_before_win s s1"
    unfolding s1_def by (intro adds_only_vbl adds_only_refl) simp
  have i1: "?inv s1" "game_won s1 = 0"
    using len cr cc won0 by (simp_all add: s1_def wait_vbl_done_def)
  have a2: "adds_only call_before_win s1 s2" and i2: "?inv s2" and w2: "game_won s2 = 0"
    using i1 move_cursor_calls [of s1 keys] by (simp_all add: s2_def adds_only_refl)
  have a3: "adds_only call_before_win s2 s3" and i3: "?inv s3" and w3: "?safe s3"
    using i2 w2 slide_selected_calls [of s2] by (simp_all add: s3_def adds_only_refl)
  have a4: "adds_only call_before_win s3 s4" and i4: "?inv s4"
    using i3 w3 slide_selected_calls [of s3] by (simp_all add: s4_def adds_only_refl)
  have "adds_only call_before_win s s4"
    using a1 a2 a3 a4 by (blast intro: adds_only_trans)
  moreover have "adds_only call_before_win s (s1\<lparr>input_cooldown := input_cooldown s1 - 1\<rparr>)"
    using a1 by (rule adds_only_fields)
  ultimately show ?thesis using i1 i4 unfolding eq by simp
qed

lemma game_loop_calls:
  "length (board s) = 16 \<Longrightarrow> cursor_row s \<le> 3 \<Longrightarrow> cursor_col s \<le> 3 \<Longrightarrow>
   adds_only call_before_win s (game_loop inputs s)"
proof (induction inputs arbitrary: s)
  case Nil
  show ?case by (simp add: adds_only_refl)
next
  case (Cons keys rest)
  show ?case
  proof (cases "game_won s = 0")
    case False
    then show ?thesis by (simp add: adds_only_refl)
  next
    case True
    with Cons.prems have step: "adds_only call_before_win s (tick keys s)"
      and inv: "length (board (tick keys s)) = 16" "cursor_row (tick keys s) \<le> 3"
        "cursor_col (tick keys s) \<le> 3"
      using tick_calls [of s keys] by simp_all
    from inv have "adds_only call_before_win (tick keys s) (game_loop rest (tick keys s))"
      by (rule Cons.IH)
    with step have "adds_only call_before_win s (game_loop rest (tick keys s))"
      by (rule adds_only_trans)
    with True show ?thesis by simp
  qed
qed

lemma game_loop_won: "game_won s \<noteq> 0 \<Longrightarrow> game_loop inputs s = s"
  by (cases inputs) simp_all

text \<open>
  C7. From any state with a 16-cell board and the cursor inside the grid, and for every
  sequence of joypad readings (A and SELECT may be held in the same frame), every call of
  \<open>try_move\<close> made by the game loop and the win animation finds the flag \<open>game_won\<close>
  at 0: once the flag is set, no call follows. If the flag is set on entry, there is no
  call at all.
\<close>

theorem no_try_move_after_win:
  assumes "length (board s) = 16" "cursor_row s \<le> 3" "cursor_col s \<le> 3"
  shows "adds_only call_before_win s (play inputs s) \<and>
         (game_won s \<noteq> 0 \<longrightarrow> adds_only no_call s (play inputs s))"
proof -
  have loop: "adds_only call_before_win s (game_loop inputs s)"
    using assms by (rule game_loop_calls)
  have "adds_only call_before_win s (win_animation (game_loop inputs s))"
    using call_before_win_tile _ loop by (rule adds_only_win_animation) simp
  with loop have first: "adds_only call_before_win s (play inputs s)"
    by (simp add: play_def Let_def)
  have "adds_only no_call s (play inputs s)" if "game_won s \<noteq> 0"
  proof -
    have "adds_only no_call s (win_animation s)"
      using no_call_tile _ adds_only_refl by (rule adds_only_win_animation) simp
    with that show ?thesis by (simp add: play_def Let_def game_loop_won)
  qed
  with first show ?thesis by blast
qed

theorem no_try_move_after_win_witness:
  "length (board almost_solved) = 16 \<and> cursor_row almost_solved \<le> 3 \<and>
   cursor_col almost_solved \<le> 3 \<and>
   adds_only call_before_win almost_solved (play [0x50, 0x50] almost_solved) \<and>
   game_won (game_loop [0x50] almost_solved) = 1 \<and>
   filter (\<lambda>e. \<not> no_call e) (trace (game_loop [0x50, 0x50] almost_solved)) =
     [Try_move_call 3 3 0]"
proof -
  have h: "length (board almost_solved) = 16" "cursor_row almost_solved \<le> 3"
    "cursor_col almost_solved \<le> 3"
    by (simp_all add: almost_solved_def)
  have won: "game_won (game_loop [0x50] almost_solved) = 1"
    by code_simp
  have calls: "filter (\<lambda>e. \<not> no_call e) (trace (game_loop [0x50, 0x50] almost_solved)) =
    [Try_move_call 3 3 0]"
    by code_simp
  have "adds_only call_before_win almost_solved (play [0x50, 0x50] almost_solved)"
    using no_try_move_after_win [OF h, of "[0x50, 0x50]"] by (rule conjunct1)
  then show ?thesis by (intro conjI h won calls)
qed

subsection \<open>The game loop keeps the board invariant\<close>

lemma layout_frame [simp]:
  "layout (draw_cursor gx gy sh s) = layout s"
  "layout (wait_vbl_done s) = layout s"
  "layout (s\<lparr>input_cooldown := k\<rparr>) = layout s"
  "layout (s\<lparr>game_won := w\<rparr>) = layout s"
  "layout (s\<lparr>cursor_row := r\<rparr>) = layout s"
  "layout (s\<lparr>cursor_col := c\<rparr>) = layout s"
  by (simp_all add: layout_def wait_vbl_done_def)

lemma layout_move_cursor: "layout (move_cursor keys s) = layout s"
  by (simp add: move_cursor_def Let_def)

lemma layout_slide_selected:
  "layout (slide_selected s) = layout s \<or>
   layout (slide_selected s) = layout (snd (try_move (cursor_row s) (cursor_col s) s))"
  by (simp add: slide_selected_def Let_def split_beta)

lemma cursor_try_move:
  "cursor_row (snd (try_move r c s)) = cursor_row s"
  "cursor_col (snd (try_move r c s)) = cursor_col s"
  by (simp_all add: try_move_def Let_def board_set_def)

lemma cursor_slide_selected:
  "cursor_row (slide_selected s) = cursor_row s"
  "cursor_col (slide_selected s) = cursor_col s"
  by (simp_all add: slide_selected_def Let_def split_beta cursor_try_move)

lemma board_inv_slide_selected:
  assumes "board_inv s" "cursor_row s \<le> 3" "cursor_col s \<le> 3"
  shows "board_inv (slide_selected s)"
proof -
  from assms have "board_inv (snd (try_move (cursor_row s) (cursor_col s) s))"
    by (rule try_move_inv)
  with assms(1) layout_slide_selected [of s] show ?thesis
    using board_inv_layout [of "slide_selected s" s]
      board_inv_layout [of "slide_selected s" "snd (try_move (cursor_row s) (cursor_col s) s)"]
    by blast
qed

lemma board_inv_tick:
  assumes "board_inv s" "cursor_row s \<le> 3" "cursor_col s \<le> 3"
  shows "board_inv (tick keys s) \<and> cursor_row (tick keys s) \<le> 3 \<and> cursor_col (tick keys s) \<le> 3"
proof -
  define s1 where "s1 = wait_vbl_done s"
  define s2 where "s2 = (if keys AND (J_UP OR J_DOWN OR J_LEFT OR J_RIGHT) \<noteq> 0
    then move_cursor keys s1 else s1)"
  define s3 where "s3 = (if keys AND J_A \<noteq> 0 then slide_selected s2 else s2)"
  define s4 where "s4 = (if keys AND J_SELECT \<noteq> 0 then slide_selected s3 else s3)"
  have eq: "tick keys s =
    (if input_cooldown s1 > 0 then s1\<lparr>input_cooldown := input_cooldown s1 - 1\<rparr> else s4)"
    unfolding tick_def Let_def s1_def s2_def s3_def s4_def ..
  let ?ok = "\<lambda>t. board_inv t \<and> cursor_row t \<le> 3 \<and> cursor_col t \<le> 3"
  have "layout s1 = layout s" by (simp add: s1_def)
  with assms have 1: "?ok s1"
    using board_inv_layout [of s1 s] by (simp add: s1_def wait_vbl_done_def)
  have "layout s2 = layout s1" by (simp add: s2_def layout_move_cursor)
  with 1 have 2: "?ok s2"
    using board_inv_layout [of s2 s1] move_cursor_calls [of s1 keys] by (simp add: s2_def)
  from 2 have 3: "?ok s3"
    using board_inv_slide_selected [of s2] by (simp add: s3_def cursor_slide_selected)
  from 3 have 4: "?ok s4"
    using board_inv_slide_selected [of s3] by (simp add: s4_def cursor_slide_selected)
  have "layout (s1\<lparr>input_cooldown := input_cooldown s1 - 1\<rparr>) = layout s1" by simp
  with 1 have "?ok (s1\<lparr>input_cooldown := input_cooldown s1 - 1\<rparr>)"
    using board_inv_layout [of "s1\<lparr>input_cooldown := input_cooldown s1 - 1\<rparr>" s1] by simp
  with 4 show ?thesis unfolding eq by simp
qed

text \<open>
  So in every run of the game loop the board keeps its 16 cells and the invariant, and
  the cursor, the only target that the loop passes to \<open>try_move\<close>, stays inside the grid.
\<close>

lemma board_inv_game_loop:
  "board_inv s \<Longrightarrow> cursor_row s \<le> 3 \<Longrightarrow> cursor_col s \<le> 3 \<Longrightarrow>
   board_inv (game_loop inputs s) \<and> cursor_row (game_loop inputs s) \<le> 3 \<and>
   cursor_col (game_loop inputs s) \<le> 3"
proof (induction inputs arbitrary: s)
  case Nil
  then show ?case by simp
next
  case (Cons keys rest)
  from Cons.prems have "board_inv (tick keys s) \<and> cursor_row (tick keys s) \<le> 3 \<and>
      cursor_col (tick keys s) \<le> 3"
    by (rule board_inv_tick)
  then have "board_inv (game_loop rest (tick keys s)) \<and>
      cursor_row (game_loop rest (tick keys s)) \<le> 3 \<and>
      cursor_col (game_loop rest (tick keys s)) \<le> 3"
    using Cons.IH [of "tick keys s"] by blast
  with Cons.prems show ?case by simp
qed

subsection \<open>Geometry of the blocks\<close>

lemma lt3_cases:
  fixes i :: uint8_t
  assumes "i < 3"
  shows "i = 0 \<or> i = 1 \<or> i = 2"
proof -
  from assms have "i \<le> 3" by simp
  from le3_cases [OF this] assms show ?thesis by auto
qed

lemma in_cell_block:
  "(x, y) \<in> set (cell_block r c) \<longleftrightarrow>
     (x = 4 + c * 3 \<or> x = 4 + c * 3 + 1 \<or> x = 4 + c * 3 + 2) \<and>
     (y = 3 + r * 3 \<or> y = 3 + r * 3 + 1 \<or> y = 3 + r * 3 + 2)"
  by (auto simp: cell_block_def)

lemma column_of_tile:
  fixes c c' :: uint8_t
  assumes "c \<le> 3" "c' \<le> 3"
    and "x = 4 + c * 3 \<or> x = 4 + c * 3 + 1 \<or> x = 4 + c * 3 + 2"
    and "x = 4 + c' * 3 \<or> x = 4 + c' * 3 + 1 \<or> x = 4 + c' * 3 + 2"
  shows "c = c'"
  using le3_cases [OF assms(1)] le3_cases [OF assms(2)] assms(3,4)
  by (elim disjE) simp_all

lemma row_of_tile:
  fixes r r' :: uint8_t
  assumes "r \<le> 3" "r' \<le> 3"
    and "y = 3 + r * 3 \<or> y = 3 + r * 3 + 1 \<or> y = 3 + r * 3 + 2"
    and "y = 3 + r' * 3 \<or> y = 3 + r' * 3 + 1 \<or> y = 3 + r' * 3 + 2"
  shows "r = r'"
  using le3_cases [OF assms(1)] le3_cases [OF assms(2)] assms(3,4)
  by (elim disjE) simp_all

lemma blocks_disjoint:
  assumes "r \<le> 3" "c \<le> 3" "r' \<le> 3" "c' \<le> 3"
    and "(x, y) \<in> set (cell_block r c)" "(x, y) \<in> set (cell_block r' c')"
  shows "r = r' \<and> c = c'"
  using assms(5,6) row_of_tile [OF assms(1,3), of y] column_of_tile [OF assms(2,4), of x]
  unfolding in_cell_block by blast

lemma hud_row_outside:
  fixes r :: uint8_t
  assumes "r \<le> 3"
  shows "(x, 17) \<notin> set (cell_block r c)"
  using le3_cases [OF assms] unfolding in_cell_block by auto

lemma event_in_disjoint:
  assumes "r \<le> 3" "c \<le> 3" "r' \<le> 3" "c' \<le> 3"
    and "event_in (cell_block r c) e" "event_in (cell_block r' c') e"
  shows "r = r' \<and> c = c'"
proof (cases e)
  case (Bkg_tile b x y t)
  with assms(5,6) have "(x, y) \<in> set (cell_block r c)" "(x, y) \<in> set (cell_block r' c')"
    by simp_all
  with assms(1-4) show ?thesis by (rule blocks_disjoint)
qed (use assms(5) in simp_all)

lemma hud_event_outside:
  assumes "r \<le> 3" "in_hud_row e"
  shows "\<not> event_in (cell_block r c) e"
  using assms hud_row_outside [of r _ c] by (cases e) auto

subsection \<open>What the drawing functions write\<close>

lemma paint_block:
  "for_loop 0 3 (\<lambda>r. for_loop 0 3 (\<lambda>c_idx.
      set_bkg_tile_xy (4 + gx * 3 + c_idx) (3 + gy * 3 + r) pal)) t =
   t\<lparr>trace := trace t @ map (\<lambda>(x, y). Bkg_tile (VBK_REG t) x y pal) (cell_block gy gx)\<rparr>"
  by (simp add: for_loop_0_3 set_bkg_tile_xy_def cell_block_def)

lemma draw_cell_empty:
  assumes "board_at s gy gx = 0"
  shows "draw_cell gx gy s =
    s\<lparr>VBK_REG := 0,
      trace := trace s @ map (\<lambda>(x, y). Bkg_tile 1 x y 5) (cell_block gy gx) @
        map (\<lambda>(x, y). Bkg_tile 0 x y T_EMPTY_CELL) (cell_block gy gx)\<rparr>"
  using assms by (simp add: draw_cell_def Let_def paint_block get_tile_palette_def)

lemma draw_cell_single:
  assumes "board_at s gy gx = v" "v \<noteq> 0" "v \<le> 9"
  shows "draw_cell gx gy s =
    s\<lparr>VBK_REG := 0,
      trace := trace s @ map (\<lambda>(x, y). Bkg_tile 1 x y (get_tile_palette v)) (cell_block gy gx) @
        [Bkg_tile 0 (4 + gx * 3) (3 + gy * 3) T_TILE_TL,
         Bkg_tile 0 (4 + gx * 3 + 1) (3 + gy * 3) T_TILE_T,
         Bkg_tile 0 (4 + gx * 3 + 2) (3 + gy * 3) T_TILE_TR,
         Bkg_tile 0 (4 + gx * 3) (3 + gy * 3 + 1) T_TILE_L,
         Bkg_tile 0 (4 + gx * 3 + 2) (3 + gy * 3 + 1) T_TILE_R,
         Bkg_tile 0 (4 + gx * 3) (3 + gy * 3 + 2) T_TILE_BL,
         Bkg_tile 0 (4 + gx * 3 + 1) (3 + gy * 3 + 2) T_TILE_B,
         Bkg_tile 0 (4 + gx * 3 + 2) (3 + gy * 3 + 2) T_TILE_BR,
         Bkg_tile 0 (4 + gx * 3 + 1) (3 + gy * 3 + 1) (T_NUM_START + v - 1)]\<rparr>"
  using assms by (simp add: draw_cell_def Let_def paint_block set_bkg_tile_xy_def)

lemma draw_cell_double:
  assumes "board_at s gy gx = v" "\<not> v \<le> 9"
  shows "draw_cell gx gy s =
    s\<lparr>VBK_REG := 0,
      trace := trace s @ map (\<lambda>(x, y). Bkg_tile 1 x y (get_tile_palette v)) (cell_block gy gx) @
        [Bkg_tile 0 (4 + gx * 3) (3 + gy * 3) T_TILE_TL,
         Bkg_tile 0 (4 + gx * 3 + 1) (3 + gy * 3) T_TILE_T,
         Bkg_tile 0 (4 + gx * 3 + 2) (3 + gy * 3) T_TILE_TR,
         Bkg_tile 0 (4 + gx * 3) (3 + gy * 3 + 1) T_TILE_L,
         Bkg_tile 0 (4 + gx * 3 + 2) (3 + gy * 3 + 1) T_TILE_R,
         Bkg_tile 0 (4 + gx * 3) (3 + gy * 3 + 2) T_TILE_BL,
         Bkg_tile 0 (4 + gx * 3 + 1) (3 + gy * 3 + 2) T_TILE_B,
         Bkg_tile 0 (4 + gx * 3 + 2) (3 + gy * 3 + 2) T_TILE_BR,
         Bkg_tile 0 (4 + gx * 3) (3 + gy * 3 + 1) T_TILE_L,
         Bkg_tile 0 (4 + gx * 3 + 1) (3 + gy * 3 + 1) (T_NUM10_L + (v - 10) * 2),
         Bkg_tile 0 (4 + gx * 3 + 2) (3 + gy * 3 + 1) (T_NUM10_L + (v - 10) * 2 + 1)]\<rparr>"
proof -
  from assms(2) have "v \<noteq> 0" by auto
  with assms show ?thesis
    by (simp add: draw_cell_def Let_def paint_block set_bkg_tile_xy_def)
qed

subsection \<open>What the screen shows\<close>



lemma new_events_trace [simp]:
  "new_events s (t\<lparr>trace := trace s @ evs\<rparr>) = evs"
  "new_events s (t\<lparr>VBK_REG := v, trace := trace s @ evs\<rparr>) = evs"
  by (simp_all add: new_events_def)

lemma block_content_single:
  "block_content (block_attributes gy gx pal @ cell_frame gx gy @
      [Bkg_tile 0 (4 + gx * 3 + 1) (3 + gy * 3 + 1) g]) gy gx =
   map Some [T_TILE_TL, T_TILE_T, T_TILE_TR, T_TILE_L, g, T_TILE_R,
     T_TILE_BL, T_TILE_B, T_TILE_BR]"
  by (simp add: block_content_def block_attributes_def cell_frame_def cell_block_def Let_def)

lemma block_content_double:
  "block_content (block_attributes gy gx pal @ cell_frame gx gy @
      [Bkg_tile 0 (4 + gx * 3) (3 + gy * 3 + 1) T_TILE_L,
       Bkg_tile 0 (4 + gx * 3 + 1) (3 + gy * 3 + 1) g,
       Bkg_tile 0 (4 + gx * 3 + 2) (3 + gy * 3 + 1) h]) gy gx =
   map Some [T_TILE_TL, T_TILE_T, T_TILE_TR, T_TILE_L, g, h,
     T_TILE_BL, T_TILE_B, T_TILE_BR]"
  by (simp add: block_content_def block_attributes_def cell_frame_def cell_block_def Let_def)

lemma draw_cell_single_events:
  assumes "board_at s gy gx = v" "1 \<le> v" "v \<le> 9"
  shows "new_events s (draw_cell gx gy s) =
      block_attributes gy gx (get_tile_palette v) @ cell_frame gx gy @
        [Bkg_tile 0 (4 + gx * 3 + 1) (3 + gy * 3 + 1) (T_NUM_START + v - 1)]"
proof -
  from assms(2) have "v \<noteq> 0" by auto
  with assms(1) have "draw_cell gx gy s = s\<lparr>VBK_REG := 0,
      trace := trace s @ map (\<lambda>(x, y). Bkg_tile 1 x y (get_tile_palette v)) (cell_block gy gx) @
        [Bkg_tile 0 (4 + gx * 3) (3 + gy * 3) T_TILE_TL,
         Bkg_tile 0 (4 + gx * 3 + 1) (3 + gy * 3) T_TILE_T,
         Bkg_tile 0 (4 + gx * 3 + 2) (3 + gy * 3) T_TILE_TR,
         Bkg_tile 0 (4 + gx * 3) (3 + gy * 3 + 1) T_TILE_L,
         Bkg_tile 0 (4 + gx * 3 + 2) (3 + gy * 3 + 1) T_TILE_R,
         Bkg_tile 0 (4 + gx * 3) (3 + gy * 3 + 2) T_TILE_BL,
         Bkg_tile 0 (4 + gx * 3 + 1) (3 + gy * 3 + 2) T_TILE_B,
         Bkg_tile 0 (4 + gx * 3 + 2) (3 + gy * 3 + 2) T_TILE_BR,
         Bkg_tile 0 (4 + gx * 3 + 1) (3 + gy * 3 + 1) (T_NUM_START + v - 1)]\<rparr>"
    using assms(3) by (rule draw_cell_single)
  then show ?thesis
    by (simp add: block_attributes_def cell_frame_def Let_def)
qed

lemma draw_cell_double_events:
  assumes "board_at s gy gx = v" "10 \<le> v"
  shows "new_events s (draw_cell gx gy s) =
      block_attributes gy gx (get_tile_palette v) @ cell_frame gx gy @
        [Bkg_tile 0 (4 + gx * 3) (3 + gy * 3 + 1) T_TILE_L,
         Bkg_tile 0 (4 + gx * 3 + 1) (3 + gy * 3 + 1) (T_NUM10_L + (v - 10) * 2),
         Bkg_tile 0 (4 + gx * 3 + 2) (3 + gy * 3 + 1) (T_NUM10_L + (v - 10) * 2 + 1)]"
proof -
  from assms(2) have "\<not> v \<le> 9" by (simp add: word_le_nat_alt)
  with assms(1) have "draw_cell gx gy s = s\<lparr>VBK_REG := 0,
      trace := trace s @ map (\<lambda>(x, y). Bkg_tile 1 x y (get_tile_palette v)) (cell_block gy gx) @
        [Bkg_tile 0 (4 + gx * 3) (3 + gy * 3) T_TILE_TL,
         Bkg_tile 0 (4 + gx * 3 + 1) (3 + gy * 3) T_TILE_T,
         Bkg_tile 0 (4 + gx * 3 + 2) (3 + gy * 3) T_TILE_TR,
         Bkg_tile 0 (4 + gx * 3) (3 + gy * 3 + 1) T_TILE_L,
         Bkg_tile 0 (4 + gx * 3 + 2) (3 + gy * 3 + 1) T_TILE_R,
         Bkg_tile 0 (4 + gx * 3) (3 + gy * 3 + 2) T_TILE_BL,
         Bkg_tile 0 (4 + gx * 3 + 1) (3 + gy * 3 + 2) T_TILE_B,
         Bkg_tile 0 (4 + gx * 3 + 2) (3 + gy * 3 + 2) T_TILE_BR,
         Bkg_tile 0 (4 + gx * 3) (3 + gy * 3 + 1) T_TILE_L,
         Bkg_tile 0 (4 + gx * 3 + 1) (3 + gy * 3 + 1) (T_NUM10_L + (v - 10) * 2),
         Bkg_tile 0 (4 + gx * 3 + 2) (3 + gy * 3 + 1) (T_NUM10_L + (v - 10) * 2 + 1)]\<rparr>"
    by (rule draw_cell_double)
  then show ?thesis
    by (simp add: block_attributes_def cell_frame_def Let_def)
qed

text \<open>
  C9, as the code has it. For a cell holding 10..15, \<open>draw_cell\<close> paints the attribute
  block, then the eight tiles of the border frame, and then the middle row again: the
  left border tile once more (unchanged), the left glyph of the pair (the tens digit) in
  the centre and the right glyph of the pair (the ones digit) in place of the right
  border tile; the bottom-right tile of the frame stays. For a cell holding 1..9 it
  paints the attribute block, the frame and one glyph in the centre.
\<close>

theorem draw_cell_number_layout:
  "(let v = board_at s gy gx; evs = new_events s (draw_cell gx gy s) in
     (1 \<le> v \<and> v \<le> 9 \<longrightarrow>
        evs = block_attributes gy gx (get_tile_palette v) @ cell_frame gx gy @
          [Bkg_tile 0 (GRID_X + gx * CELL_W + 1) (GRID_Y + gy * CELL_H + 1) (T_NUM_START + v - 1)] \<and>
        block_content evs gy gx =
          map Some [T_TILE_TL, T_TILE_T, T_TILE_TR,
                    T_TILE_L, T_NUM_START + v - 1, T_TILE_R,
                    T_TILE_BL, T_TILE_B, T_TILE_BR]) \<and>
     (10 \<le> v \<and> v \<le> 15 \<longrightarrow>
        evs = block_attributes gy gx (get_tile_palette v) @ cell_frame gx gy @
          [Bkg_tile 0 (GRID_X + gx * CELL_W) (GRID_Y + gy * CELL_H + 1) T_TILE_L,
           Bkg_tile 0 (GRID_X + gx * CELL_W + 1) (GRID_Y + gy * CELL_H + 1)
             (T_NUM10_L + (v - 10) * 2),
           Bkg_tile 0 (GRID_X + gx * CELL_W + 2) (GRID_Y + gy * CELL_H + 1)
             (T_NUM10_L + (v - 10) * 2 + 1)] \<and>
        block_content evs gy gx =
          map Some [T_TILE_TL, T_TILE_T, T_TILE_TR,
                    T_TILE_L, T_NUM10_L + (v - 10) * 2, T_NUM10_L + (v - 10) * 2 + 1,
                    T_TILE_BL, T_TILE_B, T_TILE_BR]))"
proof -
  let ?v = "board_at s gy gx"
  let ?evs = "new_events s (draw_cell gx gy s)"
  have single: "?evs = block_attributes gy gx (get_tile_palette ?v) @ cell_frame gx gy @
        [Bkg_tile 0 (4 + gx * 3 + 1) (3 + gy * 3 + 1) (T_NUM_START + ?v - 1)]"
    if "1 \<le> ?v" "?v \<le> 9"
    using refl that by (rule draw_cell_single_events)
  have double: "?evs = block_attributes gy gx (get_tile_palette ?v) @ cell_frame gx gy @
        [Bkg_tile 0 (4 + gx * 3) (3 + gy * 3 + 1) T_TILE_L,
         Bkg_tile 0 (4 + gx * 3 + 1) (3 + gy * 3 + 1) (T_NUM10_L + (?v - 10) * 2),
         Bkg_tile 0 (4 + gx * 3 + 2) (3 + gy * 3 + 1) (T_NUM10_L + (?v - 10) * 2 + 1)]"
    if "10 \<le> ?v"
    using refl that by (rule draw_cell_double_events)
  have "block_content ?evs gy gx =
      map Some [T_TILE_TL, T_TILE_T, T_TILE_TR, T_TILE_L, T_NUM_START + ?v - 1, T_TILE_R,
        T_TILE_BL, T_TILE_B, T_TILE_BR]"
    if "1 \<le> ?v" "?v \<le> 9"
    unfolding single [OF that] by (rule block_content_single)
  moreover have "block_content ?evs gy gx =
      map Some [T_TILE_TL, T_TILE_T, T_TILE_TR, T_TILE_L,
        T_NUM10_L + (?v - 10) * 2, T_NUM10_L + (?v - 10) * 2 + 1,
        T_TILE_BL, T_TILE_B, T_TILE_BR]"
    if "10 \<le> ?v"
    unfolding double [OF that] by (rule block_content_double)
  ultimately show ?thesis
    unfolding Let_def using single double by blast
qed

theorem draw_cell_number_layout_witness:
  "board_at solved_game 2 1 = 10 \<and> board_at solved_game 0 0 = 1 \<and>
   block_content (new_events solved_game (draw_cell 1 2 solved_game)) 2 1 =
     map Some [32, 33, 34, 35, 19, 20, 37, 38, 39] \<and>
   block_content (new_events solved_game (draw_cell 0 0 solved_game)) 0 0 =
     map Some [32, 33, 34, 35, 10, 36, 37, 38, 39]"
proof -
  have v: "board_at solved_game 2 1 = 10" "board_at solved_game 0 0 = 1"
    by (simp_all add: solved_game_def board_at_def cell_def)
  have "10 \<le> board_at solved_game 2 1 \<and> board_at solved_game 2 1 \<le> 15"
    by (simp add: v)
  with draw_cell_number_layout [of solved_game 2 1]
  have "block_content (new_events solved_game (draw_cell 1 2 solved_game)) 2 1 =
      map Some [T_TILE_TL, T_TILE_T, T_TILE_TR, T_TILE_L,
        T_NUM10_L + (board_at solved_game 2 1 - 10) * 2,
        T_NUM10_L + (board_at solved_game 2 1 - 10) * 2 + 1, T_TILE_BL, T_TILE_B, T_TILE_BR]"
    unfolding Let_def by blast
  then have double: "block_content (new_events solved_game (draw_cell 1 2 solved_game)) 2 1 =
      map Some [32, 33, 34, 35, 19, 20, 37, 38, 39]"
    by (simp add: v)
  have "1 \<le> board_at solved_game 0 0 \<and> board_at solved_game 0 0 \<le> 9"
    by (simp add: v)
  with draw_cell_number_layout [of solved_game 0 0]
  have "block_content (new_events solved_game (draw_cell 0 0 solved_game)) 0 0 =
      map Some [T_TILE_TL, T_TILE_T, T_TILE_TR, T_TILE_L,
        T_NUM_START + board_at solved_game 0 0 - 1, T_TILE_R, T_TILE_BL, T_TILE_B, T_TILE_BR]"
    unfolding Let_def by blast
  then have single: "block_content (new_events solved_game (draw_cell 0 0 solved_game)) 0 0 =
      map Some [32, 33, 34, 35, 10, 36, 37, 38, 39]"
    by (simp add: v)
  show ?thesis by (intro conjI v double single)
qed

text \<open>
  C9 as stated fails: on the solved board the cell in row 2, column 1 holds 10; after
  \<open>draw_cell\<close> the left tile of its middle row, screen tile (7, 10), still shows the
  border tile and not the tens glyph 19, which is in the centre (8, 10); the ones glyph
  has replaced the right border tile at (9, 10), and the bottom-right tile (9, 11) is
  the frame tile as before.
\<close>

theorem draw_cell_left_border_kept:
  "board_at solved_game 2 1 = 10 \<and>
   shown (new_events solved_game (draw_cell 1 2 solved_game)) 0 7 10 = Some T_TILE_L \<and>
   shown (new_events solved_game (draw_cell 1 2 solved_game)) 0 7 10 \<noteq>
     Some (T_NUM10_L + (board_at solved_game 2 1 - 10) * 2) \<and>
   shown (new_events solved_game (draw_cell 1 2 solved_game)) 0 8 10 = Some 19 \<and>
   shown (new_events solved_game (draw_cell 1 2 solved_game)) 0 9 10 = Some 20 \<and>
   shown (new_events solved_game (draw_cell 1 2 solved_game)) 0 9 11 = Some T_TILE_BR"
  by code_simp

subsection \<open>The move counter in the HUD\<close>

lemma for_loop_4_12:
  "for_loop 4 12 body s =
     body 11 (body 10 (body 9 (body 8 (body 7 (body 6 (body 5 (body 4 s)))))))"
  by (simp add: for_loop.simps)

lemma digit_cases:
  assumes "(d :: nat) < 10"
  obtains "d = 0" | "d = 1" | "d = 2" | "d = 3" | "d = 4" | "d = 5" | "d = 6" | "d = 7"
    | "d = 8" | "d = 9"
proof -
  from assms have "d = 0 \<or> d = 1 \<or> d = 2 \<or> d = 3 \<or> d = 4 \<or> d = 5 \<or> d = 6 \<or> d = 7 \<or> d = 8 \<or> d = 9"
    by arith
  with that show thesis by blast
qed

lemma put_char_digit:
  assumes "d < 10"
  shows "put_char x y (48 + of_nat d) s = set_bkg_tile_xy x y (digit_glyph d) s"
  using assms by (cases d rule: digit_cases) (simp_all add: put_char_def digit_glyph_def)

lemma put_char_tile: "\<exists>a. put_char x y c s = set_bkg_tile_xy x y a s"
  unfolding put_char_def Let_def by blast

lemma byte_of_digit:
  assumes "d < 10"
  shows "(0 < (of_nat d :: uint8_t)) = (0 < d)"
proof -
  from assms have "unat (of_nat d :: uint8_t) = d" by (simp add: unat_of_nat)
  then show ?thesis by (simp add: word_less_nat_alt)
qed

lemma counter_digits:
  fixes num :: uint16_t
  shows "(ucast (num mod 10) :: uint8_t) = of_nat (unat num mod 10)"
    and "(ucast ((num div 10) mod 10) :: uint8_t) = of_nat (unat num div 10 mod 10)"
    and "(ucast (num div 100) :: uint8_t) = of_nat (unat num div 100)"
proof -
  have conv: "(ucast w :: uint8_t) = of_nat (unat w)" for w :: uint16_t by simp
  show "(ucast (num mod 10) :: uint8_t) = of_nat (unat num mod 10)"
    and "(ucast ((num div 10) mod 10) :: uint8_t) = of_nat (unat num div 10 mod 10)"
    and "(ucast (num div 100) :: uint8_t) = of_nat (unat num div 100)"
    unfolding conv by (simp_all add: unat_div unat_mod)
qed


lemma three_tiles:
  "set_bkg_tile_xy x3 y3 c (set_bkg_tile_xy x2 y2 b (set_bkg_tile_xy x1 y1 a s)) =
   s\<lparr>trace := trace s @
     [Bkg_tile (VBK_REG s) x1 y1 a, Bkg_tile (VBK_REG s) x2 y2 b, Bkg_tile (VBK_REG s) x3 y3 c]\<rparr>"
  by (simp add: set_bkg_tile_xy_def)

lemma put_number_tiles:
  fixes num :: uint16_t
  obtains a b where
    "put_number x y num s =
       s\<lparr>trace := trace s @
         [Bkg_tile (VBK_REG s) x y a, Bkg_tile (VBK_REG s) (x + 1) y b,
          Bkg_tile (VBK_REG s) (x + 2) y (digit_glyph (unat num mod 10))]\<rparr>"
    "unat num < 100 \<Longrightarrow> a = T_BLANK"
    "unat num < 10 \<Longrightarrow> b = T_BLANK"
    "10 \<le> unat num \<Longrightarrow> unat num < 1000 \<Longrightarrow> b = digit_glyph (unat num div 10 mod 10)"
    "100 \<le> unat num \<Longrightarrow> unat num < 1000 \<Longrightarrow> a = digit_glyph (unat num div 100)"
proof -
  let ?n = "unat num"
  let ?h = "of_nat (?n div 100) :: uint8_t"
  let ?t = "of_nat (?n div 10 mod 10) :: uint8_t"
  let ?o = "of_nat (?n mod 10) :: uint8_t"
  have ones: "put_char (x + 2) y (48 + ?o) u = set_bkg_tile_xy (x + 2) y (digit_glyph (?n mod 10)) u"
    for u by (rule put_char_digit) simp
  have tens: "put_char (x + 1) y (48 + ?t) u =
      set_bkg_tile_xy (x + 1) y (digit_glyph (?n div 10 mod 10)) u"
    for u by (rule put_char_digit) simp
  have tpos: "(0 < ?t) = (0 < ?n div 10 mod 10)" by (rule byte_of_digit) simp
  have hpos: "(0 < ?h) = (0 < ?n div 100)" if "?n < 1000"
    using that by (intro byte_of_digit) simp
  have hzero: "?h = 0" if "?n < 100" using that by simp
  obtain a0 where a0: "put_char x y (48 + ?h) s = set_bkg_tile_xy x y a0 s"
    using put_char_tile by blast
  have a0_digit: "a0 = digit_glyph (?n div 100)" if "?n < 1000"
  proof -
    from that have "?n div 100 < 10" by simp
    then have "put_char x y (48 + ?h) s = set_bkg_tile_xy x y (digit_glyph (?n div 100)) s"
      by (rule put_char_digit)
    with a0 have "trace (set_bkg_tile_xy x y a0 s) =
        trace (set_bkg_tile_xy x y (digit_glyph (?n div 100)) s)" by simp
    then show ?thesis by (simp add: set_bkg_tile_xy_def)
  qed
  have pn: "put_number x y num s =
      (if ?h > 0 then
         put_char (x + 2) y (48 + ?o) (put_char (x + 1) y (48 + ?t) (put_char x y (48 + ?h) s))
       else if ?t > 0 then
         put_char (x + 2) y (48 + ?o) (put_char (x + 1) y (48 + ?t)
           (set_bkg_tile_xy x y T_BLANK s))
       else
         put_char (x + 2) y (48 + ?o) (set_bkg_tile_xy (x + 1) y T_BLANK
           (set_bkg_tile_xy x y T_BLANK s)))"
    unfolding put_number_def Let_def counter_digits [of num] ..
  consider (three) "0 < ?h" | (two) "\<not> 0 < ?h" "0 < ?t" | (one) "\<not> 0 < ?h" "\<not> 0 < ?t"
    by blast
  then show thesis
  proof cases
    case three
    show thesis
    proof (rule that [of a0 "digit_glyph (?n div 10 mod 10)"])
      show "put_number x y num s =
         s\<lparr>trace := trace s @
           [Bkg_tile (VBK_REG s) x y a0,
            Bkg_tile (VBK_REG s) (x + 1) y (digit_glyph (?n div 10 mod 10)),
            Bkg_tile (VBK_REG s) (x + 2) y (digit_glyph (?n mod 10))]\<rparr>"
      proof -
        from three have "put_number x y num s =
          set_bkg_tile_xy (x + 2) y (digit_glyph (?n mod 10))
            (set_bkg_tile_xy (x + 1) y (digit_glyph (?n div 10 mod 10))
              (set_bkg_tile_xy x y a0 s))"
          unfolding pn ones tens a0 by (simp only: if_True)
        then show ?thesis unfolding three_tiles .
      qed
      show "a0 = T_BLANK" if "?n < 100"
      proof -
        from that have "?h = 0" by (rule hzero)
        with three show ?thesis by simp
      qed
      show "digit_glyph (?n div 10 mod 10) = T_BLANK" if "?n < 10"
      proof -
        from that have "?n < 100" by simp
        then have "?h = 0" by (rule hzero)
        with three show ?thesis by simp
      qed
      show "a0 = digit_glyph (?n div 100)" if "?n < 1000" using that by (rule a0_digit)
    qed simp
  next
    case two
    show thesis
    proof (rule that [of T_BLANK "digit_glyph (?n div 10 mod 10)"])
      show "put_number x y num s =
         s\<lparr>trace := trace s @
           [Bkg_tile (VBK_REG s) x y T_BLANK,
            Bkg_tile (VBK_REG s) (x + 1) y (digit_glyph (?n div 10 mod 10)),
            Bkg_tile (VBK_REG s) (x + 2) y (digit_glyph (?n mod 10))]\<rparr>"
      proof -
        from two have "put_number x y num s =
          set_bkg_tile_xy (x + 2) y (digit_glyph (?n mod 10))
            (set_bkg_tile_xy (x + 1) y (digit_glyph (?n div 10 mod 10))
              (set_bkg_tile_xy x y T_BLANK s))"
          unfolding pn ones tens by (simp only: if_True if_False)
        then show ?thesis unfolding three_tiles .
      qed
      show "digit_glyph (?n div 10 mod 10) = T_BLANK" if "?n < 10"
      proof -
        from two(2) have "0 < ?n div 10 mod 10" by (rule tpos [THEN iffD1])
        with that have False by simp
        then show ?thesis ..
      qed
      show "T_BLANK = digit_glyph (?n div 100)" if "100 \<le> ?n" "?n < 1000"
      proof -
        from two(1) hpos [OF that(2)] have "\<not> 0 < ?n div 100" by blast
        with that(1) have False by simp
        then show ?thesis ..
      qed
    qed simp_all
  next
    case one
    show thesis
    proof (rule that [of T_BLANK T_BLANK])
      show "put_number x y num s =
         s\<lparr>trace := trace s @
           [Bkg_tile (VBK_REG s) x y T_BLANK,
            Bkg_tile (VBK_REG s) (x + 1) y T_BLANK,
            Bkg_tile (VBK_REG s) (x + 2) y (digit_glyph (?n mod 10))]\<rparr>"
      proof -
        from one have "put_number x y num s =
          set_bkg_tile_xy (x + 2) y (digit_glyph (?n mod 10))
            (set_bkg_tile_xy (x + 1) y T_BLANK (set_bkg_tile_xy x y T_BLANK s))"
          unfolding pn ones by (simp only: if_False)
        then show ?thesis unfolding three_tiles .
      qed
      show "T_BLANK = digit_glyph (?n div 10 mod 10)" if "10 \<le> ?n" "?n < 1000"
      proof -
        from one(1) hpos [OF that(2)] have "\<not> 0 < ?n div 100" by blast
        then have small: "?n < 100" by (simp add: div_eq_0_iff)
        from one(2) tpos have "\<not> 0 < ?n div 10 mod 10" by blast
        with small have "?n div 10 < 10" "?n div 10 mod 10 = 0" by simp_all
        then have "?n div 10 = 0" by simp
        then have "?n < 10" by (simp add: div_eq_0_iff)
        with that(1) have False by simp
        then show ?thesis ..
      qed
      show "T_BLANK = digit_glyph (?n div 100)" if "100 \<le> ?n" "?n < 1000"
      proof -
        from one(1) hpos [OF that(2)] have "\<not> 0 < ?n div 100" by blast
        with that(1) have False by simp
        then show ?thesis ..
      qed
    qed simp_all
  qed
qed

lemma put_number_ex:
  "\<exists>a b. put_number x y num s =
       s\<lparr>trace := trace s @
         [Bkg_tile (VBK_REG s) x y a, Bkg_tile (VBK_REG s) (x + 1) y b,
          Bkg_tile (VBK_REG s) (x + 2) y (digit_glyph (unat num mod 10))]\<rparr> \<and>
     (unat num < 100 \<longrightarrow> a = T_BLANK) \<and>
     (unat num < 10 \<longrightarrow> b = T_BLANK) \<and>
     (10 \<le> unat num \<and> unat num < 1000 \<longrightarrow> b = digit_glyph (unat num div 10 mod 10)) \<and>
     (100 \<le> unat num \<and> unat num < 1000 \<longrightarrow> a = digit_glyph (unat num div 100))"
proof (rule put_number_tiles [of x y num s])
  fix a b
  assume "put_number x y num s =
       s\<lparr>trace := trace s @
         [Bkg_tile (VBK_REG s) x y a, Bkg_tile (VBK_REG s) (x + 1) y b,
          Bkg_tile (VBK_REG s) (x + 2) y (digit_glyph (unat num mod 10))]\<rparr>"
    and "unat num < 100 \<Longrightarrow> a = T_BLANK"
    and "unat num < 10 \<Longrightarrow> b = T_BLANK"
    and "10 \<le> unat num \<Longrightarrow> unat num < 1000 \<Longrightarrow> b = digit_glyph (unat num div 10 mod 10)"
    and "100 \<le> unat num \<Longrightarrow> unat num < 1000 \<Longrightarrow> a = digit_glyph (unat num div 100)"
  then show ?thesis by blast
qed

lemma draw_hud_events:
  "\<exists>a b. draw_hud s =
       s\<lparr>VBK_REG := 0,
         trace := trace s @ hud_attributes @
           [Bkg_tile 0 5 17 a, Bkg_tile 0 6 17 b,
            Bkg_tile 0 7 17 (digit_glyph (unat (move_count s) mod 10))]\<rparr> \<and>
     (unat (move_count s) < 100 \<longrightarrow> a = T_BLANK) \<and>
     (unat (move_count s) < 10 \<longrightarrow> b = T_BLANK) \<and>
     (10 \<le> unat (move_count s) \<and> unat (move_count s) < 1000 \<longrightarrow>
        b = digit_glyph (unat (move_count s) div 10 mod 10)) \<and>
     (100 \<le> unat (move_count s) \<and> unat (move_count s) < 1000 \<longrightarrow>
        a = digit_glyph (unat (move_count s) div 100))"
proof -
  let ?s3 = "s\<lparr>trace := trace s @ hud_attributes, VBK_REG := 0\<rparr>"
  have hud: "draw_hud s = put_number 5 17 (move_count s) ?s3"
    by (simp add: draw_hud_def Let_def for_loop_4_12 set_bkg_tile_xy_def hud_attributes_def)
  from put_number_ex [of 5 17 "move_count s" ?s3] obtain a b where
    pn: "put_number 5 17 (move_count s) ?s3 =
       ?s3\<lparr>trace := trace ?s3 @
         [Bkg_tile (VBK_REG ?s3) 5 17 a, Bkg_tile (VBK_REG ?s3) (5 + 1) 17 b,
          Bkg_tile (VBK_REG ?s3) (5 + 2) 17 (digit_glyph (unat (move_count s) mod 10))]\<rparr>"
    and rest: "(unat (move_count s) < 100 \<longrightarrow> a = T_BLANK) \<and>
     (unat (move_count s) < 10 \<longrightarrow> b = T_BLANK) \<and>
     (10 \<le> unat (move_count s) \<and> unat (move_count s) < 1000 \<longrightarrow>
        b = digit_glyph (unat (move_count s) div 10 mod 10)) \<and>
     (100 \<le> unat (move_count s) \<and> unat (move_count s) < 1000 \<longrightarrow>
        a = digit_glyph (unat (move_count s) div 100))"
    by blast
  have "draw_hud s =
       s\<lparr>VBK_REG := 0,
         trace := trace s @ hud_attributes @
           [Bkg_tile 0 5 17 a, Bkg_tile 0 6 17 b,
            Bkg_tile 0 7 17 (digit_glyph (unat (move_count s) mod 10))]\<rparr>"
    unfolding hud pn by simp
  with rest show ?thesis by blast
qed

lemma glyph_value_digit: "d < 10 \<Longrightarrow> glyph_value (digit_glyph d) = Some d"
  by (cases d rule: digit_cases) (simp_all add: glyph_value_def digit_glyph_def)

lemma glyph_value_blank: "glyph_value T_BLANK = Some 0"
  by (simp add: glyph_value_def)

lemma three_digits:
  fixes n :: nat
  shows "100 * (n div 100) + 10 * (n div 10 mod 10) + n mod 10 = n"
proof -
  have "n mod (10 * 10) = 10 * (n div 10 mod 10) + n mod 10" by (rule mod_mult2_eq)
  then have "n mod 100 = 10 * (n div 10 mod 10) + n mod 10" by simp
  moreover have "n = 100 * (n div 100) + n mod 100" by simp
  ultimately show ?thesis by linarith
qed

lemma shown_hud:
  "shown (hud_attributes @ [Bkg_tile 0 5 17 a, Bkg_tile 0 6 17 b, Bkg_tile 0 7 17 c]) 0 5 17 = Some a"
  "shown (hud_attributes @ [Bkg_tile 0 5 17 a, Bkg_tile 0 6 17 b, Bkg_tile 0 7 17 c]) 0 6 17 = Some b"
  "shown (hud_attributes @ [Bkg_tile 0 5 17 a, Bkg_tile 0 6 17 b, Bkg_tile 0 7 17 c]) 0 7 17 = Some c"
  "list_all in_hud_row (hud_attributes @ [Bkg_tile 0 5 17 a, Bkg_tile 0 6 17 b, Bkg_tile 0 7 17 c])"
  by (simp_all add: hud_attributes_def)

text \<open>
  C8, as the code has it. \<open>draw_hud\<close> writes only into the HUD row. For every value of
  the move counter the rightmost of the three positions shows the ones digit, the
  hundreds position is blank when the value is below 100 and the tens position is blank
  when the value is below 10. For every value below 1000 the three positions show the
  value as a right-aligned decimal number (hundreds, tens and ones digit, unused leading
  positions blank), so the number read back from the HUD is the value of the counter.
\<close>

theorem draw_hud_renders_counter:
  "(let n = unat (move_count s); evs = new_events s (draw_hud s) in
      trace (draw_hud s) = trace s @ evs \<and>
      list_all in_hud_row evs \<and>
      shown evs 0 7 17 = Some (digit_glyph (n mod 10)) \<and>
      (n < 100 \<longrightarrow> shown evs 0 5 17 = Some T_BLANK) \<and>
      (n < 10 \<longrightarrow> shown evs 0 6 17 = Some T_BLANK) \<and>
      (10 \<le> n \<and> n < 1000 \<longrightarrow> shown evs 0 6 17 = Some (digit_glyph (n div 10 mod 10))) \<and>
      (100 \<le> n \<and> n < 1000 \<longrightarrow> shown evs 0 5 17 = Some (digit_glyph (n div 100))) \<and>
      (n < 1000 \<longrightarrow> hud_number evs = Some n))"
proof -
  let ?n = "unat (move_count s)"
  let ?evs = "new_events s (draw_hud s)"
  from draw_hud_events [of s] obtain a b where
    hud: "draw_hud s =
       s\<lparr>VBK_REG := 0,
         trace := trace s @ hud_attributes @
           [Bkg_tile 0 5 17 a, Bkg_tile 0 6 17 b, Bkg_tile 0 7 17 (digit_glyph (?n mod 10))]\<rparr>"
    and a_blank: "?n < 100 \<longrightarrow> a = T_BLANK"
    and b_blank: "?n < 10 \<longrightarrow> b = T_BLANK"
    and b_digit: "10 \<le> ?n \<and> ?n < 1000 \<longrightarrow> b = digit_glyph (?n div 10 mod 10)"
    and a_digit: "100 \<le> ?n \<and> ?n < 1000 \<longrightarrow> a = digit_glyph (?n div 100)"
    by blast
  have evs: "?evs = hud_attributes @
      [Bkg_tile 0 5 17 a, Bkg_tile 0 6 17 b, Bkg_tile 0 7 17 (digit_glyph (?n mod 10))]"
    unfolding hud by simp
  have tr: "trace (draw_hud s) = trace s @ ?evs"
    unfolding evs unfolding hud by simp
  have row: "list_all in_hud_row ?evs" unfolding evs by (rule shown_hud)
  have s5: "shown ?evs 0 5 17 = Some a" unfolding evs by (rule shown_hud)
  have s6: "shown ?evs 0 6 17 = Some b" unfolding evs by (rule shown_hud)
  have s7: "shown ?evs 0 7 17 = Some (digit_glyph (?n mod 10))" unfolding evs by (rule shown_hud)
  have num: "hud_number ?evs = Some ?n" if small: "?n < 1000"
  proof -
    have ones: "glyph_value (digit_glyph (?n mod 10)) = Some (?n mod 10)"
      by (rule glyph_value_digit) simp
    have va: "glyph_value a = Some (?n div 100)"
    proof (cases "?n < 100")
      case True
      with a_blank show ?thesis by (simp add: glyph_value_blank)
    next
      case False
      with small a_digit have "a = digit_glyph (?n div 100)" by simp
      moreover from small have "?n div 100 < 10" by simp
      ultimately show ?thesis by (simp add: glyph_value_digit)
    qed
    have vb: "glyph_value b = Some (?n div 10 mod 10)"
    proof (cases "?n < 10")
      case True
      with b_blank show ?thesis by (simp add: glyph_value_blank)
    next
      case False
      with small b_digit have "b = digit_glyph (?n div 10 mod 10)" by simp
      then show ?thesis by (simp add: glyph_value_digit)
    qed
    show ?thesis
      unfolding hud_number_def s5 s6 s7 using ones va vb three_digits [of ?n] by simp
  qed
  show ?thesis
    unfolding Let_def
    using tr row s5 s6 s7 a_blank b_blank b_digit a_digit num by simp
qed

theorem draw_hud_renders_counter_witness:
  "unat (move_count (solved_game\<lparr>move_count := 42\<rparr>)) = 42 \<and>
   shown (new_events (solved_game\<lparr>move_count := 42\<rparr>)
     (draw_hud (solved_game\<lparr>move_count := 42\<rparr>))) 0 5 17 = Some T_BLANK \<and>
   shown (new_events (solved_game\<lparr>move_count := 42\<rparr>)
     (draw_hud (solved_game\<lparr>move_count := 42\<rparr>))) 0 6 17 = Some 13 \<and>
   shown (new_events (solved_game\<lparr>move_count := 42\<rparr>)
     (draw_hud (solved_game\<lparr>move_count := 42\<rparr>))) 0 7 17 = Some 11 \<and>
   hud_number (new_events (solved_game\<lparr>move_count := 42\<rparr>)
     (draw_hud (solved_game\<lparr>move_count := 42\<rparr>))) = Some 42"
proof -
  have n: "unat (move_count (solved_game\<lparr>move_count := 42\<rparr>)) = 42" by simp
  from draw_hud_renders_counter [of "solved_game\<lparr>move_count := 42\<rparr>"]
  show ?thesis unfolding Let_def n by (simp add: digit_glyph_def)
qed

text \<open>
  C8 as stated fails for counters of four digits and more: with the counter at 1000 the
  HUD shows a blank followed by two zero glyphs, which reads as 0.
\<close>

theorem draw_hud_thousand:
  "unat (move_count (solved_game\<lparr>move_count := 1000\<rparr>)) = 1000 \<and>
   shown (new_events (solved_game\<lparr>move_count := 1000\<rparr>)
     (draw_hud (solved_game\<lparr>move_count := 1000\<rparr>))) 0 5 17 = Some T_BLANK \<and>
   shown (new_events (solved_game\<lparr>move_count := 1000\<rparr>)
     (draw_hud (solved_game\<lparr>move_count := 1000\<rparr>))) 0 6 17 = Some 20 \<and>
   shown (new_events (solved_game\<lparr>move_count := 1000\<rparr>)
     (draw_hud (solved_game\<lparr>move_count := 1000\<rparr>))) 0 7 17 = Some 20 \<and>
   hud_number (new_events (solved_game\<lparr>move_count := 1000\<rparr>)
     (draw_hud (solved_game\<lparr>move_count := 1000\<rparr>))) = Some 0 \<and>
   hud_number (new_events (solved_game\<lparr>move_count := 1000\<rparr>)
     (draw_hud (solved_game\<lparr>move_count := 1000\<rparr>))) \<noteq>
     Some (unat (move_count (solved_game\<lparr>move_count := 1000\<rparr>)))"
  by code_simp

subsection \<open>The cells that a move repaints\<close>

lemma repaints_mono:
  "repaints evs r c \<Longrightarrow> set evs \<subseteq> set evs' \<Longrightarrow> repaints evs' r c"
  unfolding repaints_def list_all_iff list_ex_iff by blast

lemma repaints_touches: "repaints evs r c \<Longrightarrow> touches evs r c"
proof -
  assume "repaints evs r c"
  then have "list_ex (\<lambda>e. writes_to 0 (4 + c * 3) (3 + r * 3) e \<noteq> None) evs"
    by (simp add: repaints_def cell_block_def)
  then obtain e where e: "e \<in> set evs" "writes_to 0 (4 + c * 3) (3 + r * 3) e \<noteq> None"
    unfolding list_ex_iff by blast
  have "event_in (cell_block r c) e"
  proof (cases e)
    case (Bkg_tile b x y t)
    with e(2) have "x = 4 + c * 3 \<and> y = 3 + r * 3" by (simp split: if_splits)
    with Bkg_tile show ?thesis by (simp add: in_cell_block)
  qed (use e(2) in simp_all)
  with e(1) show ?thesis unfolding touches_def list_ex_iff by blast
qed

lemma draw_cell_events:
  "\<exists>evs. draw_cell gx gy s = s\<lparr>VBK_REG := 0, trace := trace s @ evs\<rparr> \<and>
     list_all (event_in (cell_block gy gx)) evs \<and> repaints evs gy gx"
proof -
  let ?v = "board_at s gy gx"
  consider (empty) "?v = 0" | (single) "?v \<noteq> 0" "?v \<le> 9" | (double) "\<not> ?v \<le> 9"
    by blast
  then show ?thesis
  proof cases
    case empty
    let ?evs = "map (\<lambda>(x, y). Bkg_tile 1 x y 5) (cell_block gy gx) @
        map (\<lambda>(x, y). Bkg_tile 0 x y T_EMPTY_CELL) (cell_block gy gx)"
    have "draw_cell gx gy s = s\<lparr>VBK_REG := 0, trace := trace s @ ?evs\<rparr>"
      using empty by (rule draw_cell_empty)
    moreover have "list_all (event_in (cell_block gy gx)) ?evs"
      by (simp add: cell_block_def)
    moreover have "repaints ?evs gy gx"
      by (simp add: repaints_def cell_block_def)
    ultimately show ?thesis by blast
  next
    case single
    let ?evs = "map (\<lambda>(x, y). Bkg_tile 1 x y (get_tile_palette ?v)) (cell_block gy gx) @
        [Bkg_tile 0 (4 + gx * 3) (3 + gy * 3) T_TILE_TL,
         Bkg_tile 0 (4 + gx * 3 + 1) (3 + gy * 3) T_TILE_T,
         Bkg_tile 0 (4 + gx * 3 + 2) (3 + gy * 3) T_TILE_TR,
         Bkg_tile 0 (4 + gx * 3) (3 + gy * 3 + 1) T_TILE_L,
         Bkg_tile 0 (4 + gx * 3 + 2) (3 + gy * 3 + 1) T_TILE_R,
         Bkg_tile 0 (4 + gx * 3) (3 + gy * 3 + 2) T_TILE_BL,
         Bkg_tile 0 (4 + gx * 3 + 1) (3 + gy * 3 + 2) T_TILE_B,
         Bkg_tile 0 (4 + gx * 3 + 2) (3 + gy * 3 + 2) T_TILE_BR,
         Bkg_tile 0 (4 + gx * 3 + 1) (3 + gy * 3 + 1) (T_NUM_START + ?v - 1)]"
    have "draw_cell gx gy s = s\<lparr>VBK_REG := 0, trace := trace s @ ?evs\<rparr>"
      using refl single by (rule draw_cell_single)
    moreover have "list_all (event_in (cell_block gy gx)) ?evs"
      by (simp add: cell_block_def)
    moreover have "repaints ?evs gy gx"
      by (simp add: repaints_def cell_block_def)
    ultimately show ?thesis by blast
  next
    case double
    let ?evs = "map (\<lambda>(x, y). Bkg_tile 1 x y (get_tile_palette ?v)) (cell_block gy gx) @
        [Bkg_tile 0 (4 + gx * 3) (3 + gy * 3) T_TILE_TL,
         Bkg_tile 0 (4 + gx * 3 + 1) (3 + gy * 3) T_TILE_T,
         Bkg_tile 0 (4 + gx * 3 + 2) (3 + gy * 3) T_TILE_TR,
         Bkg_tile 0 (4 + gx * 3) (3 + gy * 3 + 1) T_TILE_L,
         Bkg_tile 0 (4 + gx * 3 + 2) (3 + gy * 3 + 1) T_TILE_R,
         Bkg_tile 0 (4 + gx * 3) (3 + gy * 3 + 2) T_TILE_BL,
         Bkg_tile 0 (4 + gx * 3 + 1) (3 + gy * 3 + 2) T_TILE_B,
         Bkg_tile 0 (4 + gx * 3 + 2) (3 + gy * 3 + 2) T_TILE_BR,
         Bkg_tile 0 (4 + gx * 3) (3 + gy * 3 + 1) T_TILE_L,
         Bkg_tile 0 (4 + gx * 3 + 1) (3 + gy * 3 + 1) (T_NUM10_L + (?v - 10) * 2),
         Bkg_tile 0 (4 + gx * 3 + 2) (3 + gy * 3 + 1) (T_NUM10_L + (?v - 10) * 2 + 1)]"
    have "draw_cell gx gy s = s\<lparr>VBK_REG := 0, trace := trace s @ ?evs\<rparr>"
      using refl double by (rule draw_cell_double)
    moreover have "list_all (event_in (cell_block gy gx)) ?evs"
      by (simp add: cell_block_def)
    moreover have "repaints ?evs gy gx"
      by (simp add: repaints_def cell_block_def)
    ultimately show ?thesis by blast
  qed
qed

lemma draw_hud_row:
  "\<exists>evs. draw_hud s = s\<lparr>VBK_REG := 0, trace := trace s @ evs\<rparr> \<and>
     list_all in_hud_row evs \<and> evs \<noteq> []"
proof -
  from draw_hud_events [of s] obtain a b where
    "draw_hud s = s\<lparr>VBK_REG := 0,
         trace := trace s @ hud_attributes @
           [Bkg_tile 0 5 17 a, Bkg_tile 0 6 17 b,
            Bkg_tile 0 7 17 (digit_glyph (unat (move_count s) mod 10))]\<rparr>"
    by blast
  moreover have "list_all in_hud_row (hud_attributes @
           [Bkg_tile 0 5 17 a, Bkg_tile 0 6 17 b,
            Bkg_tile 0 7 17 (digit_glyph (unat (move_count s) mod 10))])"
    by (rule shown_hud)
  ultimately show ?thesis by blast
qed


lemma try_move_moved_events:
  assumes "fst (try_move r c s) = 1"
  shows "\<exists>e1 e2 h. new_events s (snd (try_move r c s)) =
        Try_move_call r c (game_won s) # e1 @ e2 @ h \<and>
      trace (snd (try_move r c s)) = trace s @ Try_move_call r c (game_won s) # e1 @ e2 @ h \<and>
      list_all (event_in (cell_block (empty_row s) (empty_col s))) e1 \<and>
      repaints e1 (empty_row s) (empty_col s) \<and>
      list_all (event_in (cell_block r c)) e2 \<and> repaints e2 r c \<and>
      list_all in_hud_row h \<and> h \<noteq> []"
proof -
  let ?t0 = "s\<lparr>trace := trace s @ [Try_move_call r c (game_won s)],
       board := (board s)[cell (empty_row s) (empty_col s) := board s ! cell r c, cell r c := 0],
       empty_row := r, empty_col := c\<rparr>"
  from draw_cell_events [of "empty_col s" "empty_row s" ?t0] obtain e1 where
    t1: "draw_cell (empty_col s) (empty_row s) ?t0 = ?t0\<lparr>VBK_REG := 0, trace := trace ?t0 @ e1\<rparr>"
    and e1: "list_all (event_in (cell_block (empty_row s) (empty_col s))) e1"
      "repaints e1 (empty_row s) (empty_col s)"
    by blast
  let ?t1 = "?t0\<lparr>VBK_REG := 0, trace := trace ?t0 @ e1\<rparr>"
  from draw_cell_events [of c r ?t1] obtain e2 where
    t2: "draw_cell c r ?t1 = ?t1\<lparr>VBK_REG := 0, trace := trace ?t1 @ e2\<rparr>"
    and e2: "list_all (event_in (cell_block r c)) e2" "repaints e2 r c"
    by blast
  let ?t2 = "(?t1\<lparr>VBK_REG := 0, trace := trace ?t1 @ e2\<rparr>)\<lparr>move_count := move_count s + 1\<rparr>"
  from draw_hud_row [of ?t2] obtain h where
    t3: "draw_hud ?t2 = ?t2\<lparr>VBK_REG := 0, trace := trace ?t2 @ h\<rparr>"
    and h: "list_all in_hud_row h" "h \<noteq> []"
    by blast
  from assms have "snd (try_move r c s) =
      draw_hud ((draw_cell c r (draw_cell (empty_col s) (empty_row s) ?t0))
        \<lparr>move_count := move_count s + 1\<rparr>)"
    by (auto simp add: try_move_def Let_def board_set_def board_at_def split: if_splits)
  then have "snd (try_move r c s) = ?t2\<lparr>VBK_REG := 0, trace := trace ?t2 @ h\<rparr>"
    unfolding t1 t2 using t3 by simp
  then have "trace (snd (try_move r c s)) =
      trace s @ Try_move_call r c (game_won s) # e1 @ e2 @ h"
    by simp
  then have "new_events s (snd (try_move r c s)) = Try_move_call r c (game_won s) # e1 @ e2 @ h \<and>
      trace (snd (try_move r c s)) = trace s @ Try_move_call r c (game_won s) # e1 @ e2 @ h"
    by (simp add: new_events_def)
  with e1 e2 h show ?thesis by blast
qed

text \<open>
  C6. On a board that satisfies the invariant, a successful \<open>try_move\<close> on a target
  inside the grid writes to the display as follows: the grid cells whose 3x3 block
  receives any write, in either layer, are exactly the old empty cell and the target;
  both blocks are repainted completely in both layers; every other write goes to the HUD
  row, and there is such a write. A refused \<open>try_move\<close> writes nothing to the display.
\<close>

theorem try_move_repaints_two_cells:
  assumes "board_inv s" "r \<le> 3" "c \<le> 3"
  shows "(let evs = new_events s (snd (try_move r c s)) in
     trace (snd (try_move r c s)) = trace s @ evs \<and>
     (fst (try_move r c s) = 1 \<longrightarrow>
        (\<forall>r' \<le> 3. \<forall>c' \<le> 3. touches evs r' c' \<longleftrightarrow>
            (r', c') = (empty_row s, empty_col s) \<or> (r', c') = (r, c)) \<and>
        repaints evs (empty_row s) (empty_col s) \<and> repaints evs r c \<and>
        list_all (\<lambda>e. is_write e \<longrightarrow>
            event_in (cell_block (empty_row s) (empty_col s)) e \<or>
            event_in (cell_block r c) e \<or> in_hud_row e) evs \<and>
        list_ex in_hud_row evs) \<and>
     (fst (try_move r c s) \<noteq> 1 \<longrightarrow> filter is_write evs = []))"
proof -
  let ?evs = "new_events s (snd (try_move r c s))"
  let ?er = "empty_row s" and ?ec = "empty_col s"
  from assms(1) have er: "?er \<le> 3" and ec: "?ec \<le> 3" by (simp_all add: board_inv_def)
  have refused: "trace (snd (try_move r c s)) = trace s @ ?evs \<and> filter is_write ?evs = []"
    if "fst (try_move r c s) \<noteq> 1"
    using try_move_refused [OF that] by (simp add: new_events_def)
  have moved: "trace (snd (try_move r c s)) = trace s @ ?evs \<and>
      (\<forall>r' \<le> 3. \<forall>c' \<le> 3. touches ?evs r' c' \<longleftrightarrow> (r', c') = (?er, ?ec) \<or> (r', c') = (r, c)) \<and>
      repaints ?evs ?er ?ec \<and> repaints ?evs r c \<and>
      list_all (\<lambda>e. is_write e \<longrightarrow>
          event_in (cell_block ?er ?ec) e \<or> event_in (cell_block r c) e \<or> in_hud_row e) ?evs \<and>
      list_ex in_hud_row ?evs"
    if one: "fst (try_move r c s) = 1"
  proof -
    from try_move_moved_events [OF one] obtain e1 e2 h where
      evs: "?evs = Try_move_call r c (game_won s) # e1 @ e2 @ h"
      and tr: "trace (snd (try_move r c s)) = trace s @ Try_move_call r c (game_won s) # e1 @ e2 @ h"
      and e1: "list_all (event_in (cell_block ?er ?ec)) e1" "repaints e1 ?er ?ec"
      and e2: "list_all (event_in (cell_block r c)) e2" "repaints e2 r c"
      and h: "list_all in_hud_row h" "h \<noteq> []"
      by blast
    have rp1: "repaints ?evs ?er ?ec"
      using e1(2) unfolding evs by (rule repaints_mono) auto
    have rp2: "repaints ?evs r c"
      using e2(2) unfolding evs by (rule repaints_mono) auto
    have only: "list_all (\<lambda>e. is_write e \<longrightarrow>
          event_in (cell_block ?er ?ec) e \<or> event_in (cell_block r c) e \<or> in_hud_row e) ?evs"
      using e1(1) e2(1) h(1) unfolding evs by (auto simp: list_all_iff)
    have hud: "list_ex in_hud_row ?evs"
    proof -
      from h(2) obtain e where "e \<in> set h" by (cases h) auto
      with h(1) show ?thesis unfolding evs by (auto simp: list_all_iff list_ex_iff)
    qed
    have exact: "touches ?evs r' c' \<longleftrightarrow> (r', c') = (?er, ?ec) \<or> (r', c') = (r, c)"
      if r': "r' \<le> 3" and c': "c' \<le> 3" for r' c'
    proof
      assume "touches ?evs r' c'"
      then obtain e where e: "e \<in> set ?evs" "event_in (cell_block r' c') e"
        unfolding touches_def list_ex_iff by blast
      from e(2) have "is_write e" by (cases e) simp_all
      with only e(1) consider "event_in (cell_block ?er ?ec) e" | "event_in (cell_block r c) e"
        | "in_hud_row e"
        unfolding list_all_iff by blast
      then show "(r', c') = (?er, ?ec) \<or> (r', c') = (r, c)"
      proof cases
        case 1
        with r' c' er ec e(2) have "r' = ?er \<and> c' = ?ec" by (intro event_in_disjoint)
        then show ?thesis by simp
      next
        case 2
        with r' c' assms(2,3) e(2) have "r' = r \<and> c' = c" by (intro event_in_disjoint)
        then show ?thesis by simp
      next
        case 3
        with r' have "\<not> event_in (cell_block r' c') e" by (rule hud_event_outside)
        with e(2) show ?thesis by simp
      qed
    next
      assume "(r', c') = (?er, ?ec) \<or> (r', c') = (r, c)"
      with rp1 rp2 show "touches ?evs r' c'" by (auto intro: repaints_touches)
    qed
    from tr evs exact rp1 rp2 only hud show ?thesis by simp
  qed
  show ?thesis unfolding Let_def using refused moved by blast
qed

theorem try_move_repaints_two_cells_witness:
  "board_inv solved_game \<and> (3 :: uint8_t) \<le> 3 \<and> (2 :: uint8_t) \<le> 3 \<and> (0 :: uint8_t) \<le> 3 \<and>
   fst (try_move 3 2 solved_game) = 1 \<and>
   repaints (new_events solved_game (snd (try_move 3 2 solved_game))) 3 3 \<and>
   repaints (new_events solved_game (snd (try_move 3 2 solved_game))) 3 2 \<and>
   \<not> touches (new_events solved_game (snd (try_move 3 2 solved_game))) 0 0 \<and>
   fst (try_move 0 0 solved_game) \<noteq> 1 \<and>
   filter is_write (new_events solved_game (snd (try_move 0 0 solved_game))) = []"
proof -
  have inv: "board_inv solved_game"
    by (simp add: solved_game_def board_inv_def is_permutation_def identifiers_def board_at_def
        cell_def)
  have le: "(3 :: uint8_t) \<le> 3" "(2 :: uint8_t) \<le> 3" "(0 :: uint8_t) \<le> 3" by simp_all
  have e: "empty_row solved_game = 3" "empty_col solved_game = 3"
    by (simp_all add: solved_game_def)
  have one: "fst (try_move 3 2 solved_game) = 1" and zero: "fst (try_move 0 0 solved_game) \<noteq> 1"
    by (simp_all add: try_move_fst e)
  from try_move_repaints_two_cells [OF inv le(1) le(2)] one
  have a: "repaints (new_events solved_game (snd (try_move 3 2 solved_game))) 3 3"
    and b: "repaints (new_events solved_game (snd (try_move 3 2 solved_game))) 3 2"
    and c: "\<forall>r' \<le> 3. \<forall>c' \<le> 3.
      touches (new_events solved_game (snd (try_move 3 2 solved_game))) r' c' \<longleftrightarrow>
        (r', c') = (3, 3) \<or> (r', c') = (3, 2)"
    unfolding Let_def e by blast+
  from c le(3) have d: "\<not> touches (new_events solved_game (snd (try_move 3 2 solved_game))) 0 0"
    by simp
  from try_move_repaints_two_cells [OF inv le(3) le(3)] zero
  have f: "filter is_write (new_events solved_game (snd (try_move 0 0 solved_game))) = []"
    unfolding Let_def by blast
  show ?thesis by (intro conjI inv le one a b d zero f)
qed

subsection \<open>The win animation\<close>






lemma normal_palette_frame [simp]:
  "normal_palette (s\<lparr>VBK_REG := v, trace := t\<rparr>) = normal_palette s"
  by (intro ext) (simp add: normal_palette_def board_at_def)


subsection \<open>What a beat leaves on the screen\<close>









end
